theory Spec2Isabelle
  imports Main
begin

section \<open>EventCache (indexer.py, class EventCache)\<close>

text \<open>
  The cache is an \<^verbatim>\<open>OrderedDict\<close> from event id to serialized event together with
  its capacity \<^verbatim>\<open>max_size\<close>. The ordered dictionary is an association list in insertion
  order, oldest entry first. \<^verbatim>\<open>max_size\<close> is a Python \<^verbatim>\<open>int\<close> that nothing validates.
\<close>

record 'v EventCache =
  max_size :: int
  cache :: "(string \<times> 'v) list"

definition EventCache_init :: "int \<Rightarrow> 'v EventCache" where
  "EventCache_init n = \<lparr>max_size = n, cache = []\<rparr>"

text \<open>
  \<^verbatim>\<open>self.cache[event_id] = event\<close>: assignment to a key already present replaces its
  value where it stands; a new key goes to the end.
\<close>

fun setitem :: "(string \<times> 'v) list \<Rightarrow> string \<Rightarrow> 'v \<Rightarrow> (string \<times> 'v) list" where
  "setitem [] k v = [(k, v)]"
| "setitem ((k', v') # rest) k v =
     (if k' = k then (k, v) # rest else (k', v') # setitem rest k v)"

text \<open>
  \<^verbatim>\<open>popitem(last=False)\<close> removes the first entry. It raises \<^verbatim>\<open>KeyError\<close> on an
  empty dictionary, which \<^verbatim>\<open>add\<close> never reaches: it pops right after an assignment, so
  the dictionary holds at least that entry (lemma \<open>setitem_not_Nil\<close>).
\<close>

definition popitem_first :: "(string \<times> 'v) list \<Rightarrow> (string \<times> 'v) list" where
  "popitem_first xs = (case xs of [] \<Rightarrow> [] | _ # rest \<Rightarrow> rest)"

definition add :: "'v EventCache \<Rightarrow> string \<Rightarrow> 'v \<Rightarrow> 'v EventCache" where
  "add c event_id event =
     (let c1 = c\<lparr>cache := setitem (cache c) event_id event\<rparr>
      in if int (length (cache c1)) > max_size c1
         then c1\<lparr>cache := popitem_first (cache c1)\<rparr>
         else c1)"

definition get :: "'v EventCache \<Rightarrow> string \<Rightarrow> 'v option" where
  "get c event_id = map_of (cache c) event_id"

definition contains :: "'v EventCache \<Rightarrow> string \<Rightarrow> bool" where
  "contains c event_id = (event_id \<in> fst ` set (cache c))"

definition cache_size :: "'v EventCache \<Rightarrow> nat" where
  "cache_size c = length (cache c)"

text \<open>A sequence of \<^verbatim>\<open>add\<close> calls, first call first.\<close>

fun add_all :: "'v EventCache \<Rightarrow> (string \<times> 'v) list \<Rightarrow> 'v EventCache" where
  "add_all c [] = c"
| "add_all c ((k, v) # rest) = add_all (add c k v) rest"

text \<open>
  A call of one of the cache's methods, and the cache after the call. \<^verbatim>\<open>get\<close>,
  \<^verbatim>\<open>contains\<close> and \<^verbatim>\<open>size\<close> only read \<^verbatim>\<open>self.cache\<close> (\<^verbatim>\<open>OrderedDict.get\<close> and
  \<^verbatim>\<open>in\<close> do not move an entry), so the cache after them is the cache before.
\<close>

datatype 'v cache_call = Add string 'v | Get string | Contains string | Size

fun after_call :: "'v EventCache \<Rightarrow> 'v cache_call \<Rightarrow> 'v EventCache" where
  "after_call c (Add k v) = add c k v"
| "after_call c (Get k) = c"
| "after_call c (Contains k) = c"
| "after_call c Size = c"

fun after_calls :: "'v EventCache \<Rightarrow> 'v cache_call list \<Rightarrow> 'v EventCache" where
  "after_calls c [] = c"
| "after_calls c (x # xs) = after_calls (after_call c x) xs"

fun adds_of :: "'v cache_call list \<Rightarrow> (string \<times> 'v) list" where
  "adds_of [] = []"
| "adds_of (Add k v # xs) = (k, v) # adds_of xs"
| "adds_of (_ # xs) = adds_of xs"

text \<open>
  What every cache the program can build satisfies: it is empty or within its capacity
  (a negative capacity keeps it empty).
\<close>

definition cache_inv :: "'v EventCache \<Rightarrow> bool" where
  "cache_inv c = (cache c = [] \<or> int (length (cache c)) \<le> max_size c)"

section \<open>Raw events and stored documents\<close>

text \<open>
  Payloads (\<^verbatim>\<open>source\<close>, \<^verbatim>\<open>content\<close>) are JSON-like Python values; a \<^verbatim>\<open>dict\<close> is an
  association list.
\<close>

datatype pyval =
    PNone
  | PBool bool
  | PInt int
  | PStr string
  | PList "pyval list"
  | PDict "(string \<times> pyval) list"

text \<open>
  The exceptions the two programs can meet: an attribute read on an object that lacks
  it, \<^verbatim>\<open>int()\<close> rejecting its argument (\<^verbatim>\<open>TypeError\<close> for \<^verbatim>\<open>None\<close> or a list,
  \<^verbatim>\<open>ValueError\<close> for a string that is no number, \<^verbatim>\<open>OverflowError\<close> for an infinite
  float), \<^verbatim>\<open>range\<close> refusing a step of zero (\<^verbatim>\<open>ValueError\<close>), and the client's
  \<^verbatim>\<open>room_messages\<close> raising.
\<close>

datatype error = AttributeError | TypeError | ValueError | OverflowError | ClientError

text \<open>
  A Python value as \<^verbatim>\<open>int()\<close> sees it: \<open>IntOf n\<close> is a value that \<^verbatim>\<open>int()\<close> turns into
  the integer \<open>n\<close> (an integer, a boolean, a float, a numeric string); \<open>IntRaises e\<close>
  is a value on which \<^verbatim>\<open>int()\<close> raises \<open>e\<close>.
\<close>

datatype int_arg = IntOf int | IntRaises error

definition py_int :: "int_arg \<Rightarrow> error + int" where
  "py_int a = (case a of IntOf n \<Rightarrow> Inr n | IntRaises e \<Rightarrow> Inl e)"

text \<open>
  A raw protocol event is read attribute by attribute (\<^verbatim>\<open>getattr\<close>, \<^verbatim>\<open>hasattr\<close>).
  \<open>None\<close> for \<open>ev_event_id\<close>, \<open>ev_room_id\<close>, \<open>ev_sender\<close>, \<open>ev_type\<close>,
  \<open>ev_origin_server_ts\<close> stands for an attribute that is absent or holds \<^verbatim>\<open>None\<close>: the
  code cannot tell the two apart (\<^verbatim>\<open>getattr(event, name, None)\<close>, and the truth test on
  \<^verbatim>\<open>event.event_id\<close>). An id, when there is one, is a string, as the protocol has it.
  For \<open>ev_source\<close> and \<open>ev_content\<close>, \<open>None\<close> is the absent attribute and
  \<open>Some PNone\<close> the attribute holding \<^verbatim>\<open>None\<close>. For \<open>ev_timestamp\<close>, \<open>None\<close> is the
  absent attribute; a present one is passed to \<^verbatim>\<open>int()\<close>, whatever it holds.
  \<open>RoomMessageText\<close> is the one event class the serializer tests for; the serializer
  reads its attributes \<^verbatim>\<open>body\<close> and \<^verbatim>\<open>msgtype\<close> unguarded, and either may be absent
  (\<open>None\<close>).
\<close>

datatype event_class = RoomMessageText "pyval option" "pyval option" | OtherEvent

record raw_event =
  ev_class :: event_class
  ev_event_id :: "string option"
  ev_room_id :: "string option"
  ev_sender :: "string option"
  ev_type :: "string option"
  ev_origin_server_ts :: "int option"
  ev_timestamp :: "int_arg option"
  ev_source :: "pyval option"
  ev_content :: "pyval option"

text \<open>
  The stored document. A field that is \<open>None\<close> holds Python's \<^verbatim>\<open>None\<close>; \<open>backfilled\<close>
  is \<open>None\<close> when the document has no such key (the live path writes none).
\<close>

record doc =
  event_id :: "string option"
  room_id :: "string option"
  sender :: "string option"
  type :: "string option"
  origin_server_ts :: "int option"
  timestamp :: int
  source :: pyval
  content :: pyval
  backfilled :: "bool option"

text \<open>
  \<^verbatim>\<open>int(getattr(event, "timestamp", 0))\<close> (indexer.py line 155, backfill.py line 114).
\<close>

definition timestamp_of :: "raw_event \<Rightarrow> error + int" where
  "timestamp_of event = (case ev_timestamp event of None \<Rightarrow> Inr 0 | Some a \<Rightarrow> py_int a)"

text \<open>
  \<^verbatim>\<open>MatrixIndexer._serialize_event\<close> (indexer.py, lines 147-167). The dictionary of lines
  149-157 is built first, so a rejected timestamp raises before the content is looked at;
  for a \<^verbatim>\<open>RoomMessageText\<close>, line 161 reads \<^verbatim>\<open>event.body\<close> and \<^verbatim>\<open>event.msgtype\<close>, and
  raises \<^verbatim>\<open>AttributeError\<close> when one is absent.
\<close>

definition serialize_event :: "raw_event \<Rightarrow> error + doc" where
  "serialize_event event =
     (case timestamp_of event of
        Inl e \<Rightarrow> Inl e
      | Inr ts \<Rightarrow>
          (case (case ev_class event of
                   RoomMessageText body msgtype \<Rightarrow>
                     (case body of
                        None \<Rightarrow> Inl AttributeError
                      | Some b \<Rightarrow>
                          (case msgtype of
                             None \<Rightarrow> Inl AttributeError
                           | Some m \<Rightarrow> Inr (PDict [(''body'', b), (''msgtype'', m)])))
                 | OtherEvent \<Rightarrow>
                     (case ev_content event of
                        Some (PDict d) \<Rightarrow> Inr (PDict d)
                      | _ \<Rightarrow> Inr (PDict []))) of
             Inl e \<Rightarrow> Inl e
           | Inr c \<Rightarrow>
               Inr \<lparr>event_id = ev_event_id event,
                    room_id = ev_room_id event,
                    sender = ev_sender event,
                    type = ev_type event,
                    origin_server_ts = ev_origin_server_ts event,
                    timestamp = ts,
                    source = (case ev_source event of None \<Rightarrow> PDict [] | Some s \<Rightarrow> s),
                    content = c,
                    backfilled = None\<rparr>))"

text \<open>
  The test both ingestion paths make before they build a document:
  \<^verbatim>\<open>not hasattr(event, 'event_id') or not event.event_id\<close>.
\<close>

definition lacks_id :: "raw_event \<Rightarrow> bool" where
  "lacks_id event = (case ev_event_id event of None \<Rightarrow> True | Some i \<Rightarrow> i = [])"

section \<open>The events collection and the effects of the two programs\<close>

text \<open>
  \<^verbatim>\<open>replace_one({"event_id": key}, d, upsert=True)\<close> on a collection, a list of documents
  in insertion order: the first document with that id is replaced where it stands; when
  there is none, the document is inserted.
\<close>

fun replace_one :: "doc list \<Rightarrow> string option \<Rightarrow> doc \<Rightarrow> doc list" where
  "replace_one [] key d = [d]"
| "replace_one (x # xs) key d =
     (if event_id x = key then d # xs else x # replace_one xs key d)"

text \<open>
  What the programs do to the world outside, in the order they do it: a long poll with its
  \<^verbatim>\<open>since\<close> token, a write of the state file with the text that reached the file (none
  when the write raised after the file was opened), a document upserted, a back-off sleep
  with its seconds, a page of room history requested with the room and the start token.
\<close>

datatype effect =
    Sync "string option"
  | WriteState string
  | Upsert doc
  | Sleep nat
  | RoomMessages string string

record world =
  events_collection :: "doc list"
  effects :: "effect list"

text \<open>
  The collaborators the code calls, as parameters: \<open>db_rejects d\<close> says that the database
  raises when asked to write \<open>d\<close>; \<open>state_file_write\<close> is what the file system does with
  the write of the state file; \<open>rooms\<close> is the client's dictionary of joined rooms, each
  with its \<^verbatim>\<open>prev_batch\<close> token; \<open>room_messages room k start\<close> is the answer to the
  \<open>k\<close>-th page request of a walk over \<open>room\<close>, made from the token \<open>start\<close>;
  \<open>backfill_batch_size\<close> is the configured page size.

  The write of the state file (\<^verbatim>\<open>mkdir\<close>, then \<^verbatim>\<open>write_text\<close>, which opens the file for
  writing and so truncates it, then writes) can succeed, raise before the file is opened
  (from \<^verbatim>\<open>mkdir\<close> or from the open), or raise after the open has truncated the file.
\<close>

datatype write_outcome = Written | RaisesBeforeOpen | RaisesAfterOpen

datatype room_messages_result =
    RoomMessagesRaises
  | RoomMessagesReturns "raw_event list option" "string option option"

record env =
  db_rejects :: "doc \<Rightarrow> bool"
  state_file_write :: write_outcome
  rooms :: "(string \<times> string option) list"
  room_messages :: "string \<Rightarrow> nat \<Rightarrow> string \<Rightarrow> room_messages_result"
  backfill_batch_size :: int

text \<open>
  The loop \<^verbatim>\<open>for doc in docs_to_insert: replace_one(...)\<close> inside its \<^verbatim>\<open>try\<close>, the same
  in indexer.py (lines 187-197) and backfill.py (lines 122-132). The result says whether
  the loop was left by an exception; the documents written before it stay written.
\<close>

fun store_docs :: "(doc \<Rightarrow> bool) \<Rightarrow> 'a world_scheme \<Rightarrow> doc list \<Rightarrow> 'a world_scheme \<times> bool" where
  "store_docs rejects w [] = (w, False)"
| "store_docs rejects w (d # ds) =
     (if rejects d then (w, True)
      else store_docs rejects
             (w\<lparr>events_collection := replace_one (events_collection w) (event_id d) d,
                effects := effects w @ [Upsert d]\<rparr>) ds)"

section \<open>MatrixIndexer (indexer.py)\<close>

text \<open>
  The indexer's state: the world, the cursor \<^verbatim>\<open>self.sync_token\<close>, the cache
  \<^verbatim>\<open>self.cache\<close> and the content of the state file (\<open>None\<close>: no file).
\<close>

record indexer = world +
  sync_token :: "string option"
  event_cache :: "doc EventCache"
  state_file :: "string option"

text \<open>
  \<^verbatim>\<open>json.dumps({"sync_token": self.sync_token})\<close>. A character is a code point below
  256; \<^verbatim>\<open>json.dumps\<close> keeps the printable ASCII characters but the quote and the
  backslash, and escapes the others.
\<close>

definition hex_digit :: "nat \<Rightarrow> char" where
  "hex_digit n = ''0123456789abcdef'' ! (n mod 16)"

definition json_escape_char :: "char \<Rightarrow> string" where
  "json_escape_char c =
     (if c = CHR 0x22 then [CHR 0x5C, CHR 0x22]
      else if c = CHR 0x5C then [CHR 0x5C, CHR 0x5C]
      else if c = CHR 0x0A then [CHR 0x5C, CHR ''n'']
      else if c = CHR 0x0D then [CHR 0x5C, CHR ''r'']
      else if c = CHR 0x09 then [CHR 0x5C, CHR ''t'']
      else if c = CHR 0x08 then [CHR 0x5C, CHR ''b'']
      else if c = CHR 0x0C then [CHR 0x5C, CHR ''f'']
      else if 0x20 \<le> (of_char c :: nat) \<and> (of_char c :: nat) \<le> 0x7E then [c]
      else [CHR 0x5C, CHR ''u'', CHR ''0'', CHR ''0'',
            hex_digit (of_char c div 16), hex_digit (of_char c)])"

definition json_dumps_str :: "string \<Rightarrow> string" where
  "json_dumps_str s = [CHR 0x22] @ concat (map json_escape_char s) @ [CHR 0x22]"

definition json_dumps_state :: "string option \<Rightarrow> string" where
  "json_dumps_state tok =
     [CHR 0x7B, CHR 0x22] @ ''sync_token'' @ [CHR 0x22] @ '': '' @
     (case tok of None \<Rightarrow> ''null'' | Some s \<Rightarrow> json_dumps_str s) @ [CHR 0x7D]"

text \<open>
  \<^verbatim>\<open>Path.write_text(data)\<close> opens the file for writing, which truncates it, writes the
  text and closes the file. \<open>write_text_states old data\<close> lists the content of the file
  before the call, after the open and after the write: where a crash of the process
  during the call can leave it. \<open>write_text\<close> is the content after a call that returns.
\<close>

definition write_text_states :: "string option \<Rightarrow> string \<Rightarrow> string option list" where
  "write_text_states old data = [old, Some [], Some data]"

definition write_text :: "string option \<Rightarrow> string \<Rightarrow> string option" where
  "write_text old data = Some data"

text \<open>
  \<^verbatim>\<open>MatrixIndexer._save_state\<close> (lines 138-145): one \<^verbatim>\<open>write_text\<close> of the state file
  itself, inside a \<^verbatim>\<open>try\<close> whose \<^verbatim>\<open>except\<close> logs and swallows every exception. When
  the exception comes before the file is opened, the file stays as it was; when it
  comes after, the file stays truncated.
\<close>

definition save_state :: "env \<Rightarrow> indexer \<Rightarrow> indexer" where
  "save_state env st =
     (case state_file_write env of
        Written \<Rightarrow>
          st\<lparr>state_file := write_text (state_file st) (json_dumps_state (sync_token st)),
             effects := effects st @ [WriteState (json_dumps_state (sync_token st))]\<rparr>
      | RaisesBeforeOpen \<Rightarrow> st
      | RaisesAfterOpen \<Rightarrow>
          st\<lparr>state_file := Some [], effects := effects st @ [WriteState []]\<rparr>)"

definition save_state_crash_states :: "indexer \<Rightarrow> string option list" where
  "save_state_crash_states st =
     write_text_states (state_file st) (json_dumps_state (sync_token st))"

text \<open>
  \<^verbatim>\<open>MatrixIndexer._process_events\<close> (lines 169-197). The first loop (lines 176-184)
  skips the events without an id, serializes the others and adds each to the cache. It
  runs outside the \<^verbatim>\<open>try\<close>: an exception of the serializer leaves \<^verbatim>\<open>_process_events\<close>
  there, with the cache as the events before it made it and nothing stored. \<open>Inl\<close> is
  that exception, \<open>Inr\<close> the normal return.
\<close>

fun collect_docs ::
  "raw_event list \<Rightarrow> doc list \<times> doc EventCache \<Rightarrow> (error + doc list) \<times> doc EventCache" where
  "collect_docs [] (docs_to_insert, c) = (Inr docs_to_insert, c)"
| "collect_docs (event # events) (docs_to_insert, c) =
     (case ev_event_id event of
        None \<Rightarrow> collect_docs events (docs_to_insert, c)
      | Some i \<Rightarrow>
          if i = [] then collect_docs events (docs_to_insert, c)
          else
            (case serialize_event event of
               Inl e \<Rightarrow> (Inl e, c)
             | Inr d \<Rightarrow> collect_docs events (docs_to_insert @ [d], add c i d)))"

definition process_events :: "env \<Rightarrow> indexer \<Rightarrow> raw_event list \<Rightarrow> (error + unit) \<times> indexer" where
  "process_events env st events =
     (if events = [] then (Inr (), st)
      else
        (case collect_docs events ([], event_cache st) of
           (Inl e, c) \<Rightarrow> (Inl e, st\<lparr>event_cache := c\<rparr>)
         | (Inr docs_to_insert, c) \<Rightarrow>
             if docs_to_insert = [] then (Inr (), st\<lparr>event_cache := c\<rparr>)
             else (Inr (), fst (store_docs (db_rejects env) (st\<lparr>event_cache := c\<rparr>)
                                 docs_to_insert))))"

text \<open>
  One answer of \<^verbatim>\<open>client.sync\<close>: a \<^verbatim>\<open>SyncResponse\<close> with \<^verbatim>\<open>next_batch\<close> and the
  joined rooms with their timeline events, in the order of \<^verbatim>\<open>rooms.join.items()\<close>;
  another object (a sync error); or an exception.
\<close>

datatype sync_result =
    SyncResponse string "(string \<times> raw_event list) list"
  | SyncErrorResponse
  | SyncRaises

text \<open>
  The loop over the joined rooms (lines 215-217): a room without events is passed over,
  and an exception out of \<^verbatim>\<open>_process_events\<close> leaves the loop, the rooms after it
  unprocessed.
\<close>

fun process_rooms ::
  "env \<Rightarrow> indexer \<Rightarrow> (string \<times> raw_event list) list \<Rightarrow> (error + unit) \<times> indexer" where
  "process_rooms env st [] = (Inr (), st)"
| "process_rooms env st ((rid, events) # rest) =
     (if events = [] then process_rooms env st rest
      else
        (case process_events env st events of
           (Inl e, st1) \<Rightarrow> (Inl e, st1)
         | (Inr u, st1) \<Rightarrow> process_rooms env st1 rest))"

text \<open>
  One turn of the \<^verbatim>\<open>while self.running\<close> loop of \<^verbatim>\<open>sync_loop\<close> (lines 205-226), given
  the answer of \<^verbatim>\<open>client.sync\<close>. On a \<^verbatim>\<open>SyncResponse\<close> the token is set and saved
  (lines 211-212) and then the rooms are processed (lines 215-217).
  \<^verbatim>\<open>_process_events\<close> swallows the database's exceptions itself; an exception of the
  serializer comes out of it and reaches the \<^verbatim>\<open>except\<close> of the loop (lines 224-226),
  which sleeps 5, as it does when \<^verbatim>\<open>client.sync\<close> raises.
\<close>

definition sync_cycle :: "env \<Rightarrow> indexer \<Rightarrow> sync_result \<Rightarrow> indexer" where
  "sync_cycle env st resp =
     (let st0 = st\<lparr>effects := effects st @ [Sync (sync_token st)]\<rparr>
      in case resp of
           SyncResponse next_batch join \<Rightarrow>
             (case process_rooms env (save_state env (st0\<lparr>sync_token := Some next_batch\<rparr>)) join of
                (Inl e, st1) \<Rightarrow> st1\<lparr>effects := effects st1 @ [Sleep 5]\<rparr>
              | (Inr u, st1) \<Rightarrow> st1)
         | SyncErrorResponse \<Rightarrow> st0\<lparr>effects := effects st0 @ [Sleep 5]\<rparr>
         | SyncRaises \<Rightarrow> st0\<lparr>effects := effects st0 @ [Sleep 5]\<rparr>)"

text \<open>
  The loop, run for as long as the list of the server's answers lasts (the flag
  \<^verbatim>\<open>self.running\<close> and cancellation are not modelled).
\<close>

fun sync_loop :: "env \<Rightarrow> indexer \<Rightarrow> sync_result list \<Rightarrow> indexer" where
  "sync_loop env st [] = st"
| "sync_loop env st (resp # rest) = sync_loop env (sync_cycle env st resp) rest"

section \<open>MatrixBackfill (backfill.py)\<close>

text \<open>
  The document the walk builds for an event with the id \<open>i\<close> (lines 108-118): the room
  is the room walked, \<^verbatim>\<open>content\<close> is copied as it is, \<^verbatim>\<open>backfilled\<close> is set. Line 114
  raises when \<^verbatim>\<open>int()\<close> rejects the timestamp.
\<close>

definition backfill_doc :: "string \<Rightarrow> string \<Rightarrow> raw_event \<Rightarrow> error + doc" where
  "backfill_doc rid i event =
     (case timestamp_of event of
        Inl e \<Rightarrow> Inl e
      | Inr ts \<Rightarrow>
          Inr \<lparr>event_id = Some i,
               room_id = Some rid,
               sender = ev_sender event,
               type = ev_type event,
               origin_server_ts = ev_origin_server_ts event,
               timestamp = ts,
               source = (case ev_source event of None \<Rightarrow> PDict [] | Some s \<Rightarrow> s),
               content = (case ev_content event of None \<Rightarrow> PDict [] | Some c \<Rightarrow> c),
               backfilled = Some True\<rparr>)"

text \<open>
  The loop over \<^verbatim>\<open>resp.chunk\<close> (lines 103-119): events without an id are skipped; the
  first event whose line 114 raises leaves the loop by that exception, and the list is
  lost with it.
\<close>

fun backfill_docs :: "string \<Rightarrow> raw_event list \<Rightarrow> error + doc list" where
  "backfill_docs rid [] = Inr []"
| "backfill_docs rid (event # events) =
     (case ev_event_id event of
        None \<Rightarrow> backfill_docs rid events
      | Some i \<Rightarrow>
          if i = [] then backfill_docs rid events
          else
            (case backfill_doc rid i event of
               Inl e \<Rightarrow> Inl e
             | Inr d \<Rightarrow>
                 (case backfill_docs rid events of
                    Inl e \<Rightarrow> Inl e
                  | Inr ds \<Rightarrow> Inr (d # ds))))"

text \<open>
  Lines 103-132: the documents of one page are built and stored, and \<^verbatim>\<open>event_count\<close>
  grows by their number unless the database raised. \<open>Inl\<close> is an exception raised while
  the documents were built, before anything of the page was stored; it is not caught
  here.
\<close>

definition store_batch ::
  "env \<Rightarrow> string \<Rightarrow> raw_event list \<Rightarrow> nat \<Rightarrow> world \<Rightarrow> (error + nat) \<times> world" where
  "store_batch env rid events event_count w =
     (case backfill_docs rid events of
        Inl e \<Rightarrow> (Inl e, w)
      | Inr docs_to_insert \<Rightarrow>
          if docs_to_insert = [] then (Inr event_count, w)
          else
            (case store_docs (db_rejects env) w docs_to_insert of
               (w', raised) \<Rightarrow>
                 (Inr (if raised then event_count else event_count + length docs_to_insert),
                  w')))"

text \<open>
  \<^verbatim>\<open>len(range(0, stop, step))\<close>, the number of turns of the \<^verbatim>\<open>for\<close> loop; \<open>None\<close> when
  \<^verbatim>\<open>range\<close> raises \<^verbatim>\<open>ValueError\<close> (a step of zero).
\<close>

definition range_len :: "int \<Rightarrow> int \<Rightarrow> nat option" where
  "range_len stop step =
     (if step = 0 then None
      else if step > 0 then Some (if stop > 0 then nat ((stop - 1) div step + 1) else 0)
      else Some (if stop < 0 then nat ((- stop - 1) div (- step) + 1) else 0))"

text \<open>
  The \<^verbatim>\<open>for\<close> loop of \<^verbatim>\<open>backfill_room\<close> (lines 84-140) with \<open>n\<close> turns left, at its
  \<open>k\<close>-th page. \<open>Inr\<close> is the loop left by \<^verbatim>\<open>break\<close> or by its end, with the count;
  \<open>Inl\<close> is the loop left by an exception. The world is returned either way: what was
  stored stays stored.
\<close>

fun backfill_walk ::
  "env \<Rightarrow> string \<Rightarrow> nat \<Rightarrow> nat \<Rightarrow> string option \<Rightarrow> nat \<Rightarrow> world \<Rightarrow> (error + nat) \<times> world" where
  "backfill_walk env rid 0 k start_token event_count w = (Inr event_count, w)"
| "backfill_walk env rid (Suc n) k start_token event_count w =
     (case start_token of
        None \<Rightarrow> (Inr event_count, w)
      | Some tok \<Rightarrow>
          if tok = [] then (Inr event_count, w)
          else
            (case room_messages env rid k tok of
               RoomMessagesRaises \<Rightarrow>
                 (Inl ClientError, w\<lparr>effects := effects w @ [RoomMessages rid tok]\<rparr>)
             | RoomMessagesReturns chunk start \<Rightarrow>
                 (case chunk of
                    None \<Rightarrow> (Inr event_count, w\<lparr>effects := effects w @ [RoomMessages rid tok]\<rparr>)
                  | Some events \<Rightarrow>
                      if events = []
                      then (Inr event_count, w\<lparr>effects := effects w @ [RoomMessages rid tok]\<rparr>)
                      else
                        (case store_batch env rid events event_count
                                (w\<lparr>effects := effects w @ [RoomMessages rid tok]\<rparr>) of
                           (Inl e, w1) \<Rightarrow> (Inl e, w1)
                         | (Inr count1, w1) \<Rightarrow>
                             (case start of
                                None \<Rightarrow> (Inr count1, w1)
                              | Some next_token \<Rightarrow>
                                  backfill_walk env rid n (Suc k) next_token count1 w1)))))"

text \<open>
  The \<^verbatim>\<open>try\<close> block of \<^verbatim>\<open>backfill_room\<close> (lines 73-143), and \<^verbatim>\<open>backfill_room\<close> itself,
  whose \<^verbatim>\<open>except\<close> (lines 145-147) turns every exception into the count 0.
\<close>

definition backfill_room_try :: "env \<Rightarrow> string \<Rightarrow> int \<Rightarrow> world \<Rightarrow> (error + nat) \<times> world" where
  "backfill_room_try env rid limit w =
     (case map_of (rooms env) rid of
        None \<Rightarrow> (Inr 0, w)
      | Some prev_batch \<Rightarrow>
          (case range_len limit (backfill_batch_size env) of
             None \<Rightarrow> (Inl ValueError, w)
           | Some n \<Rightarrow> backfill_walk env rid n 0 prev_batch 0 w))"

definition backfill_room :: "env \<Rightarrow> string \<Rightarrow> int \<Rightarrow> world \<Rightarrow> nat \<times> world" where
  "backfill_room env rid limit w =
     (case backfill_room_try env rid limit w of
        (Inl e, w') \<Rightarrow> (0, w')
      | (Inr event_count, w') \<Rightarrow> (event_count, w'))"

text \<open>
  \<^verbatim>\<open>backfill_all_rooms\<close> (lines 149-164): every key of \<^verbatim>\<open>client.rooms\<close> in turn, with
  the default limit 1000; \<^verbatim>\<open>results\<close> is a dictionary from room to count.
\<close>

fun backfill_rooms ::
  "env \<Rightarrow> string list \<Rightarrow> (string \<rightharpoonup> nat) \<Rightarrow> world \<Rightarrow> (string \<rightharpoonup> nat) \<times> world" where
  "backfill_rooms env [] results w = (results, w)"
| "backfill_rooms env (rid # rest) results w =
     (case backfill_room env rid 1000 w of
        (event_count, w') \<Rightarrow> backfill_rooms env rest (results(rid \<mapsto> event_count)) w')"

definition backfill_all_rooms :: "env \<Rightarrow> world \<Rightarrow> (string \<rightharpoonup> nat) \<times> world" where
  "backfill_all_rooms env w = backfill_rooms env (map fst (rooms env)) Map.empty w"

section \<open>Notions used to state the properties\<close>

text \<open>
  The documents of a list upserted one after the other, every write succeeding: what
  the storing loop does to the collection when the database raises nowhere.
\<close>

fun upsert_all :: "doc list \<Rightarrow> doc list \<Rightarrow> doc list" where
  "upsert_all coll [] = coll"
| "upsert_all coll (d # ds) = upsert_all (replace_one coll (event_id d) d) ds"

text \<open>
  What the first loop of \<^verbatim>\<open>_process_events\<close> makes of a batch: \<open>live_docs\<close> are the
  documents it builds and caches, in order, up to the first event on which the
  serializer raises; \<open>live_error\<close> is that exception, if there is one.
\<close>

fun live_docs :: "raw_event list \<Rightarrow> doc list" where
  "live_docs [] = []"
| "live_docs (event # events) =
     (if lacks_id event then live_docs events
      else (case serialize_event event of Inl e \<Rightarrow> [] | Inr d \<Rightarrow> d # live_docs events))"

fun live_error :: "raw_event list \<Rightarrow> error option" where
  "live_error [] = None"
| "live_error (event # events) =
     (if lacks_id event then live_error events
      else (case serialize_event event of Inl e \<Rightarrow> Some e | Inr d \<Rightarrow> live_error events))"

text \<open>
  The documents one batch asks the database to keep: none when the serializer raised,
  and otherwise those before the first one the database rejects.
\<close>

definition stored_docs :: "env \<Rightarrow> raw_event list \<Rightarrow> doc list" where
  "stored_docs env events =
     (if live_error events = None
      then takeWhile (\<lambda>d. \<not> db_rejects env d) (live_docs events) else [])"

text \<open>
  The documents one cycle asks the database to keep, room after room, up to the first
  room whose batch makes the serializer raise; and that exception, if there is one.
\<close>

fun cycle_docs :: "env \<Rightarrow> (string \<times> raw_event list) list \<Rightarrow> doc list" where
  "cycle_docs env [] = []"
| "cycle_docs env ((rid, events) # rest) =
     stored_docs env events @ (if live_error events = None then cycle_docs env rest else [])"

fun cycle_error :: "(string \<times> raw_event list) list \<Rightarrow> error option" where
  "cycle_error [] = None"
| "cycle_error ((rid, events) # rest) =
     (case live_error events of None \<Rightarrow> cycle_error rest | Some e \<Rightarrow> Some e)"

section \<open>Example inputs\<close>

text \<open>
  An event that carries its id and nothing else, and the document the serializer makes
  of it; a healthy environment in which the
  history of room \<open>A\<close> cannot be fetched and room \<open>B\<close> has one page of two events; and
  an indexer that has polled up to the token \<open>s0\<close>.
\<close>

definition example_event :: "string option \<Rightarrow> raw_event" where
  "example_event i =
     \<lparr>ev_class = OtherEvent, ev_event_id = i, ev_room_id = None, ev_sender = None,
      ev_type = None, ev_origin_server_ts = None, ev_timestamp = None, ev_source = None,
      ev_content = None\<rparr>"

definition example_doc :: "string \<Rightarrow> doc" where
  "example_doc i =
     \<lparr>event_id = Some i, room_id = None, sender = None, type = None,
      origin_server_ts = None, timestamp = 0, source = PDict [], content = PDict [],
      backfilled = None\<rparr>"

definition example_env :: env where
  "example_env =
     \<lparr>db_rejects = (\<lambda>d. False),
      state_file_write = Written,
      rooms = [(''A'', Some ''t0''), (''B'', Some ''u0'')],
      room_messages =
        (\<lambda>rid k tok.
           if rid = ''A'' then RoomMessagesRaises
           else if k = 0
             then RoomMessagesReturns
                    (Some [example_event (Some ''e1''), example_event (Some ''e2'')])
                    (Some (Some ''u1''))
             else RoomMessagesReturns (Some []) (Some None)),
      backfill_batch_size = 100\<rparr>"

definition example_world :: world where
  "example_world = \<lparr>events_collection = [], effects = []\<rparr>"

definition example_indexer :: indexer where
  "example_indexer =
     \<lparr>events_collection = [], effects = [], sync_token = Some ''s0'',
      event_cache = EventCache_init 10,
      state_file = Some (json_dumps_state (Some ''s0''))\<rparr>"

section \<open>Properties of the cache\<close>

lemma setitem_not_Nil: "setitem xs k v \<noteq> []"
  by (cases xs) (auto split: if_splits)

lemma setitem_absent: "k \<notin> fst ` set xs \<Longrightarrow> setitem xs k v = xs @ [(k, v)]"
  by (induction xs) auto

lemma setitem_present_keys: "k \<in> fst ` set xs \<Longrightarrow> map fst (setitem xs k v) = map fst xs"
  by (induction xs) force+

lemma setitem_present_length: "k \<in> fst ` set xs \<Longrightarrow> length (setitem xs k v) = length xs"
  by (induction xs) force+

lemma setitem_length_le: "length (setitem xs k v) \<le> Suc (length xs)"
  by (induction xs) auto

lemma map_of_setitem: "map_of (setitem xs k v) k = Some v"
  by (induction xs) auto

lemma map_of_setitem_other: "k' \<noteq> k \<Longrightarrow> map_of (setitem xs k v) k' = map_of xs k'"
  by (induction xs) auto

lemma popitem_first_tl: "popitem_first xs = tl xs"
  by (cases xs) (auto simp: popitem_first_def)

lemma max_size_add [simp]: "max_size (add c k v) = max_size c"
  by (simp add: add_def Let_def)

lemma max_size_add_all [simp]: "max_size (add_all c xs) = max_size c"
  by (induction xs arbitrary: c) auto

lemma add_all_append: "add_all c (xs @ ys) = add_all (add_all c xs) ys"
  by (induction xs arbitrary: c) auto

lemma add_all_snoc: "add_all c (xs @ [(k, v)]) = add (add_all c xs) k v"
  by (simp add: add_all_append)

text \<open>With a capacity that is not negative, \<^verbatim>\<open>add\<close> keeps the size within it.\<close>

lemma add_keeps_bound:
  assumes "0 \<le> max_size c" and "int (length (cache c)) \<le> max_size c"
  shows "int (length (cache (add c k v))) \<le> max_size c"
proof -
  have "length (setitem (cache c) k v) \<le> Suc (length (cache c))"
    by (rule setitem_length_le)
  then show ?thesis
    using assms by (auto simp: add_def Let_def popitem_first_tl)
qed

lemma add_all_keeps_bound:
  "0 \<le> max_size c \<Longrightarrow> int (length (cache c)) \<le> max_size c \<Longrightarrow>
   int (length (cache (add_all c xs))) \<le> max_size c"
proof (induction xs arbitrary: c)
  case Nil
  then show ?case by simp
next
  case (Cons x xs)
  obtain k v where x: "x = (k, v)" by (cases x)
  have "int (length (cache (add c k v))) \<le> max_size (add c k v)"
    using Cons.prems by (simp add: add_keeps_bound)
  with Cons.IH [of "add c k v"] Cons.prems show ?case
    by (simp add: x)
qed

lemma tl_drop_snoc:
  "n \<le> length xs \<Longrightarrow>
   tl (drop (length xs - n) xs @ [y]) = drop (Suc (length xs) - n) (xs @ [y])"
proof (cases n)
  case 0
  then show ?thesis by simp
next
  case (Suc m)
  assume le: "n \<le> length xs"
  then have ne: "drop (length xs - n) xs \<noteq> []" using Suc by simp
  have "Suc (length xs) - n = Suc (length xs - n)" using le by simp
  with ne show ?thesis
    by (simp add: tl_drop drop_Suc)
qed

text \<open>A new id: appended, and the oldest entry leaves when the cache was full.\<close>

lemma add_new_full:
  "k \<notin> fst ` set (cache c) \<Longrightarrow> max_size c \<le> int (length (cache c)) \<Longrightarrow>
   cache (add c k v) = tl (cache c @ [(k, v)])"
  by (simp add: add_def Let_def setitem_absent popitem_first_tl)

lemma add_new_room:
  "k \<notin> fst ` set (cache c) \<Longrightarrow> int (length (cache c)) < max_size c \<Longrightarrow>
   cache (add c k v) = cache c @ [(k, v)]"
  by (simp add: add_def Let_def setitem_absent)

text \<open>
  From the empty cache, distinct ids: the cache holds the last \<open>C\<close> entries of the
  sequence, in the order of their insertion.
\<close>

lemma add_all_fifo:
  assumes "0 \<le> C" and "distinct (map fst xs)"
  shows "cache (add_all (EventCache_init C) xs) = drop (length xs - nat C) xs"
  using assms(2)
proof (induction xs rule: rev_induct)
  case Nil
  then show ?case by (simp add: EventCache_init_def)
next
  case (snoc x xs)
  obtain k v where x: "x = (k, v)" by (cases x)
  let ?c = "add_all (EventCache_init C) xs"
  from snoc.prems have dist: "distinct (map fst xs)" and new: "k \<notin> fst ` set xs"
    by (auto simp: x)
  have IH: "cache ?c = drop (length xs - nat C) xs"
    using snoc.IH dist by simp
  have "set (cache ?c) \<subseteq> set xs"
    by (simp add: IH set_drop_subset)
  with new have "k \<notin> fst ` set (cache ?c)" by auto
  then have absent: "k \<notin> fst ` set (cache ?c)" .
  have ms: "max_size ?c = C" by (simp add: EventCache_init_def)
  show ?case
  proof (cases "nat C \<le> length xs")
    case True
    then have "max_size ?c \<le> int (length (cache ?c))"
      using assms(1) by (simp only: ms IH) simp
    then have "cache (add ?c k v) = tl (cache ?c @ [(k, v)])"
      using absent by (rule add_new_full [rotated])
    also have "\<dots> = drop (Suc (length xs) - nat C) (xs @ [(k, v)])"
      using True by (simp only: IH tl_drop_snoc)
    finally show ?thesis
      by (simp add: x add_all_snoc)
  next
    case False
    then have "int (length (cache ?c)) < max_size ?c"
      by (simp only: ms IH) simp
    then have "cache (add ?c k v) = cache ?c @ [(k, v)]"
      using absent by (rule add_new_room [rotated])
    then show ?thesis
      using False by (simp add: x add_all_snoc IH)
  qed
qed

text \<open>Reads leave the cache as it is: only the \<^verbatim>\<open>add\<close> calls of a run count.\<close>

lemma after_calls_adds: "after_calls c calls = add_all c (adds_of calls)"
proof (induction calls arbitrary: c)
  case Nil
  then show ?case by simp
next
  case (Cons x calls)
  then show ?case by (cases x) simp_all
qed

lemma cache_inv_add: "cache_inv c \<Longrightarrow> cache_inv (add c k v)"
proof -
  assume inv: "cache_inv c"
  have le: "length (setitem (cache c) k v) \<le> Suc (length (cache c))"
    by (rule setitem_length_le)
  show ?thesis
  proof (cases "cache c = []")
    case True
    then show ?thesis
      by (simp add: cache_inv_def add_def Let_def popitem_first_def)
  next
    case False
    with inv have "int (length (cache c)) \<le> max_size c"
      by (simp add: cache_inv_def)
    with le show ?thesis
      by (auto simp: cache_inv_def add_def Let_def popitem_first_tl)
  qed
qed

lemma cache_inv_add_all: "cache_inv c \<Longrightarrow> cache_inv (add_all c xs)"
  by (induction xs arbitrary: c) (auto simp: cache_inv_add)

lemma cache_inv_init: "cache_inv (EventCache_init C)"
  by (simp add: cache_inv_def EventCache_init_def)

lemma add_present:
  assumes "cache_inv c" and "k \<in> fst ` set (cache c)"
  shows "cache (add c k v) = setitem (cache c) k v"
proof -
  from assms(2) have "cache c \<noteq> []" by auto
  with assms(1) have "int (length (cache c)) \<le> max_size c"
    by (simp add: cache_inv_def)
  moreover have "length (setitem (cache c) k v) = length (cache c)"
    using assms(2) by (rule setitem_present_length)
  ultimately show ?thesis
    by (simp add: add_def Let_def)
qed

section \<open>The cache: claims\<close>

text \<open>
  C3. For every capacity \<open>C\<close> (a count, so not negative) and every sequence of more than
  \<open>C\<close> insertions with distinct ids into a new cache: after each \<^verbatim>\<open>add\<close> the size is
  at most \<open>C\<close>; at the end the cache holds exactly the last \<open>C\<close> insertions, oldest
  first; each \<^verbatim>\<open>add\<close> into the full cache drops the one entry at the front, the oldest
  survivor; and the calls of \<^verbatim>\<open>get\<close>, \<^verbatim>\<open>contains\<close> and \<^verbatim>\<open>size\<close> mixed into any run
  of calls leave the cache, and so the eviction order, as the \<^verbatim>\<open>add\<close> calls alone
  make it.
\<close>

theorem EventCache_fifo_eviction:
  assumes cap: "0 \<le> C" and dist: "distinct (map fst xs)" and long: "nat C < length xs"
  shows "(\<forall>n \<le> length xs. int (cache_size (add_all (EventCache_init C) (take n xs))) \<le> C)
       \<and> cache (add_all (EventCache_init C) xs) = drop (length xs - nat C) xs
       \<and> cache_size (add_all (EventCache_init C) xs) = nat C
       \<and> (\<forall>i. nat C \<le> i \<and> i < length xs \<longrightarrow>
            cache (add_all (EventCache_init C) (take (Suc i) xs)) =
            tl (cache (add_all (EventCache_init C) (take i xs)) @ [xs ! i]))
       \<and> (\<forall>calls. adds_of calls = xs \<longrightarrow>
            after_calls (EventCache_init C) calls = add_all (EventCache_init C) xs)"
proof -
  have bound: "int (cache_size (add_all (EventCache_init C) (take n xs))) \<le> C" for n
    using add_all_keeps_bound [of "EventCache_init C" "take n xs"] cap
    by (simp add: cache_size_def EventCache_init_def)
  have fifo: "cache (add_all (EventCache_init C) xs) = drop (length xs - nat C) xs"
    using cap dist by (rule add_all_fifo)
  have full: "cache_size (add_all (EventCache_init C) xs) = nat C"
    using long by (simp add: cache_size_def fifo)
  have evict: "cache (add_all (EventCache_init C) (take (Suc i) xs)) =
      tl (cache (add_all (EventCache_init C) (take i xs)) @ [xs ! i])"
    if i: "nat C \<le> i" "i < length xs" for i
  proof -
    have d: "distinct (map fst (take n xs))" for n
      using dist by (simp add: take_map [symmetric])
    have before: "cache (add_all (EventCache_init C) (take i xs)) = drop (i - nat C) (take i xs)"
      using add_all_fifo [OF cap d, of i] i by simp
    have after: "cache (add_all (EventCache_init C) (take (Suc i) xs)) =
        drop (Suc i - nat C) (take i xs @ [xs ! i])"
      using add_all_fifo [OF cap d, of "Suc i"] i by (simp add: take_Suc_conv_app_nth)
    have "tl (drop (length (take i xs) - nat C) (take i xs) @ [xs ! i]) =
        drop (Suc (length (take i xs)) - nat C) (take i xs @ [xs ! i])"
      by (rule tl_drop_snoc) (use i in simp)
    with i show ?thesis by (simp add: before after)
  qed
  have reads: "after_calls (EventCache_init C) calls = add_all (EventCache_init C) xs"
    if "adds_of calls = xs" for calls :: "'a cache_call list"
    using that by (simp add: after_calls_adds)
  from bound fifo full evict reads show ?thesis by blast
qed

theorem EventCache_fifo_eviction_witness:
  "cache (add_all (EventCache_init 2) [(''a'', 1::nat), (''b'', 2), (''c'', 3)]) =
     [(''b'', 2), (''c'', 3)]
   \<and> cache_size (add_all (EventCache_init 2) [(''a'', 1::nat), (''b'', 2), (''c'', 3)]) = 2
   \<and> after_calls (EventCache_init 2)
        [Add ''a'' (1::nat), Get ''a'', Add ''b'' 2, Contains ''a'', Add ''c'' 3, Size] =
      add_all (EventCache_init 2) [(''a'', 1), (''b'', 2), (''c'', 3)]"
  using EventCache_fifo_eviction [of 2 "[(''a'', 1::nat), (''b'', 2), (''c'', 3)]"]
  by simp

text \<open>
  C10. In every cache the program can build (a new cache after any run of calls), \<^verbatim>\<open>add\<close>
  of an id that is present puts the new record where the old one stood: the order of the
  ids is the same, nothing is evicted, the size is the same, the id now maps to the new
  record and every other id to its old one.
\<close>

theorem add_present_overwrites_in_place:
  assumes "c = after_calls (EventCache_init C) calls" and "contains c k"
  shows "map fst (cache (add c k v)) = map fst (cache c)
       \<and> cache (add c k v) = setitem (cache c) k v
       \<and> cache_size (add c k v) = cache_size c
       \<and> get (add c k v) k = Some v
       \<and> (\<forall>k'. k' \<noteq> k \<longrightarrow> get (add c k v) k' = get c k')"
proof -
  have inv: "cache_inv c"
    using assms(1) by (simp add: after_calls_adds cache_inv_add_all cache_inv_init)
  have k: "k \<in> fst ` set (cache c)"
    using assms(2) by (simp add: contains_def)
  have eq: "cache (add c k v) = setitem (cache c) k v"
    using inv k by (rule add_present)
  show ?thesis
    using k by (simp add: eq cache_size_def get_def setitem_present_keys
        setitem_present_length map_of_setitem map_of_setitem_other)
qed

theorem add_present_overwrites_in_place_witness:
  "contains (after_calls (EventCache_init 2) [Add ''a'' (1::nat), Add ''b'' 2]) ''a''
   \<and> cache (add (after_calls (EventCache_init 2) [Add ''a'' (1::nat), Add ''b'' 2]) ''a'' 7) =
       [(''a'', 7), (''b'', 2)]"
  using add_present_overwrites_in_place
    [of "after_calls (EventCache_init 2) [Add ''a'' (1::nat), Add ''b'' 2]" 2
        "[Add ''a'' (1::nat), Add ''b'' 2]" "''a''" 7]
  by (simp add: contains_def add_def EventCache_init_def popitem_first_def)

section \<open>Properties of the events collection\<close>

lemma ids_replace_one:
  "event_id ` set (replace_one coll (event_id d) d) = insert (event_id d) (event_id ` set coll)"
  by (induction coll) auto

lemma replace_one_absent:
  "key \<notin> event_id ` set coll \<Longrightarrow> replace_one coll key d = coll @ [d]"
  by (induction coll) auto

lemma replace_one_present_ids:
  "event_id d \<in> event_id ` set coll \<Longrightarrow>
   map event_id (replace_one coll (event_id d) d) = map event_id coll"
  by (induction coll) force+

lemma replace_one_mem: "d \<in> set (replace_one coll key d)"
  by (induction coll) auto

lemma replace_one_absorb:
  "event_id d = key \<Longrightarrow> replace_one (replace_one coll key d) key z = replace_one coll key z"
  by (induction coll) auto

lemma replace_one_commute:
  "event_id z \<noteq> event_id d \<Longrightarrow> event_id z \<in> event_id ` set coll \<Longrightarrow>
   replace_one (replace_one coll (event_id d) d) (event_id z) z =
   replace_one (replace_one coll (event_id z) z) (event_id d) d"
  by (induction coll) force+

lemma upsert_all_append: "upsert_all coll (xs @ ys) = upsert_all (upsert_all coll xs) ys"
  by (induction xs arbitrary: coll) auto

lemma ids_upsert_all:
  "event_id ` set (upsert_all coll ds) = event_id ` set coll \<union> event_id ` set ds"
  by (induction ds arbitrary: coll) (auto simp: ids_replace_one)

lemma upsert_past:
  "\<forall>z \<in> set zs. event_id z \<in> event_id ` set coll \<Longrightarrow>
   replace_one (upsert_all (replace_one coll (event_id d) d) zs) (event_id d) d =
   replace_one (upsert_all coll zs) (event_id d) d"
proof (induction zs arbitrary: coll)
  case Nil
  then show ?case by (simp add: replace_one_absorb)
next
  case (Cons z zs)
  have rest: "\<forall>y \<in> set zs. event_id y \<in> event_id ` set (replace_one coll (event_id z) z)"
    using Cons.prems by (simp add: ids_replace_one)
  show ?case
  proof (cases "event_id z = event_id d")
    case True
    then have "replace_one (replace_one coll (event_id d) d) (event_id z) z =
        replace_one coll (event_id z) z"
      by (simp add: replace_one_absorb)
    then show ?thesis by simp
  next
    case False
    have "event_id z \<in> event_id ` set coll" using Cons.prems by simp
    with False have "replace_one (replace_one coll (event_id d) d) (event_id z) z =
        replace_one (replace_one coll (event_id z) z) (event_id d) d"
      by (rule replace_one_commute)
    then show ?thesis
      using Cons.IH [OF rest] by simp
  qed
qed

lemma upsert_all_twice: "upsert_all (upsert_all coll ds) ds = upsert_all coll ds"
proof (induction ds arbitrary: coll rule: rev_induct)
  case Nil
  then show ?case by simp
next
  case (snoc d ds)
  let ?t = "upsert_all coll ds"
  have present: "\<forall>z \<in> set ds. event_id z \<in> event_id ` set ?t"
    by (simp add: ids_upsert_all)
  have "upsert_all (upsert_all coll (ds @ [d])) (ds @ [d]) =
      replace_one (upsert_all (replace_one ?t (event_id d) d) ds) (event_id d) d"
    by (simp add: upsert_all_append)
  also have "\<dots> = replace_one (upsert_all ?t ds) (event_id d) d"
    using present by (rule upsert_past)
  also have "\<dots> = replace_one ?t (event_id d) d"
    by (simp add: snoc.IH)
  finally show ?case by (simp add: upsert_all_append)
qed

lemma distinct_replace_one:
  "distinct (map event_id coll) \<Longrightarrow> distinct (map event_id (replace_one coll (event_id d) d))"
proof (cases "event_id d \<in> event_id ` set coll")
  case True
  assume "distinct (map event_id coll)"
  then show ?thesis using True by (simp add: replace_one_present_ids)
next
  case False
  assume "distinct (map event_id coll)"
  then show ?thesis using False by (simp add: replace_one_absent)
qed

lemma distinct_upsert_all:
  "distinct (map event_id coll) \<Longrightarrow> distinct (map event_id (upsert_all coll ds))"
  by (induction ds arbitrary: coll) (auto simp: distinct_replace_one)

lemma store_docs_collection:
  "events_collection (fst (store_docs rejects w ds)) =
   upsert_all (events_collection w) (takeWhile (\<lambda>d. \<not> rejects d) ds)"
  by (induction ds arbitrary: w) auto

lemma collect_docs_fst:
  "fst (collect_docs events (acc, c)) =
   (case live_error events of None \<Rightarrow> Inr (acc @ live_docs events) | Some e \<Rightarrow> Inl e)"
proof (induction events arbitrary: acc c)
  case Nil
  then show ?case by simp
next
  case (Cons event events)
  show ?case
  proof (cases "lacks_id event")
    case True
    then show ?thesis
      using Cons.IH [of acc c] by (auto simp: lacks_id_def split: option.splits)
  next
    case False
    then obtain i where i: "ev_event_id event = Some i" "i \<noteq> []"
      by (auto simp: lacks_id_def split: option.splits)
    show ?thesis
    proof (cases "serialize_event event")
      case (Inl e)
      then show ?thesis using False i by simp
    next
      case (Inr d)
      then show ?thesis
        using False i Cons.IH [of "acc @ [d]" "add c i d"]
        by (simp split: option.splits)
    qed
  qed
qed

lemma process_events_outcome:
  "fst (process_events env st events) =
   (case live_error events of None \<Rightarrow> Inr () | Some e \<Rightarrow> Inl e)"
proof (cases "events = []")
  case True
  then show ?thesis by (simp add: process_events_def)
next
  case False
  obtain r c where cd: "collect_docs events ([], event_cache st) = (r, c)"
    by (cases "collect_docs events ([], event_cache st)")
  then have r: "r = (case live_error events of None \<Rightarrow> Inr (live_docs events) | Some e \<Rightarrow> Inl e)"
    using collect_docs_fst [of events "[]" "event_cache st"]
    by (cases "live_error events") simp_all
  show ?thesis
    using False by (cases "live_error events") (simp_all add: process_events_def cd r)
qed

lemma process_events_collection:
  "events_collection (snd (process_events env st events)) =
   upsert_all (events_collection st) (stored_docs env events)"
proof (cases "events = []")
  case True
  then show ?thesis by (simp add: process_events_def stored_docs_def)
next
  case False
  obtain r c where cd: "collect_docs events ([], event_cache st) = (r, c)"
    by (cases "collect_docs events ([], event_cache st)")
  then have r: "r = (case live_error events of None \<Rightarrow> Inr (live_docs events) | Some e \<Rightarrow> Inl e)"
    using collect_docs_fst [of events "[]" "event_cache st"]
    by (cases "live_error events") simp_all
  show ?thesis
  proof (cases "live_error events")
    case None
    then show ?thesis
      using False
      by (cases "live_docs events = []")
        (simp_all add: process_events_def cd r stored_docs_def store_docs_collection)
  next
    case (Some e)
    then show ?thesis
      using False by (simp add: process_events_def cd r stored_docs_def)
  qed
qed

lemma store_batch_collection:
  "events_collection (snd (store_batch env rid events n w)) =
   upsert_all (events_collection w)
     (case backfill_docs rid events of
        Inl e \<Rightarrow> []
      | Inr ds \<Rightarrow> takeWhile (\<lambda>d. \<not> db_rejects env d) ds)"
proof (cases "backfill_docs rid events")
  case (Inl e)
  then show ?thesis by (simp add: store_batch_def)
next
  case (Inr ds)
  then have "snd (store_batch env rid events n w) =
      (if ds = [] then w else fst (store_docs (db_rejects env) w ds))"
    by (simp add: store_batch_def split: prod.splits)
  then show ?thesis using Inr by (simp add: store_docs_collection)
qed

lemma replace_one_present:
  "key \<in> event_id ` set coll \<Longrightarrow>
   replace_one coll key d =
     takeWhile (\<lambda>x. event_id x \<noteq> key) coll @ d # tl (dropWhile (\<lambda>x. event_id x \<noteq> key) coll)"
  by (induction coll) auto

section \<open>Events without an id\<close>

lemma collect_docs_skip:
  "lacks_id e \<Longrightarrow> collect_docs (xs @ e # ys) acc = collect_docs (xs @ ys) acc"
proof (induction xs arbitrary: acc)
  case Nil
  obtain ds c where "acc = (ds, c)" by (cases acc)
  with Nil show ?case by (auto simp: lacks_id_def split: option.splits)
next
  case (Cons x xs)
  obtain ds c where "acc = (ds, c)" by (cases acc)
  with Cons show ?case by (auto split: option.splits sum.splits)
qed

lemma collect_docs_only_skipped:
  "lacks_id e \<Longrightarrow> collect_docs [e] (ds, c) = (Inr ds, c)"
  using collect_docs_skip [of e "[]" "[]" "(ds, c)"] by simp

lemma process_events_skip:
  assumes "lacks_id e"
  shows "process_events env st (xs @ e # ys) = process_events env st (xs @ ys)"
proof (cases "xs @ ys = []")
  case True
  have "collect_docs [e] ([], event_cache st) = (Inr [], event_cache st)"
    using assms by (rule collect_docs_only_skipped)
  then have "process_events env st [e] = (Inr (), st)"
    unfolding process_events_def by simp
  with True show ?thesis
    by (simp add: process_events_def)
next
  case False
  then show ?thesis
    using assms by (simp add: process_events_def collect_docs_skip)
qed

lemma backfill_docs_skip:
  "lacks_id e \<Longrightarrow> backfill_docs rid (xs @ e # ys) = backfill_docs rid (xs @ ys)"
  by (induction xs) (auto simp: lacks_id_def split: option.splits sum.splits)

lemma live_docs_skip:
  "lacks_id e \<Longrightarrow> live_docs (xs @ e # ys) = live_docs (xs @ ys)"
  by (induction xs) (auto split: sum.splits)

lemma live_error_skip:
  "lacks_id e \<Longrightarrow> live_error (xs @ e # ys) = live_error (xs @ ys)"
  by (induction xs) (auto split: sum.splits)

lemma live_docs_append:
  "live_docs (xs @ ys) = live_docs xs @ (if live_error xs = None then live_docs ys else [])"
  by (induction xs) (auto split: sum.splits)

lemma serialize_event_id: "serialize_event e = Inr d \<Longrightarrow> event_id d = ev_event_id e"
  by (auto simp: serialize_event_def split: sum.splits)

lemma live_docs_have_id:
  "d \<in> set (live_docs events) \<Longrightarrow> event_id d \<noteq> None \<and> event_id d \<noteq> Some []"
proof (induction events)
  case Nil
  then show ?case by simp
next
  case (Cons e events)
  show ?case
  proof (cases "lacks_id e")
    case True
    with Cons show ?thesis by simp
  next
    case False
    show ?thesis
    proof (cases "serialize_event e")
      case (Inl err)
      with False Cons.prems show ?thesis by simp
    next
      case (Inr d')
      then have "event_id d' = ev_event_id e" by (rule serialize_event_id)
      with False have "event_id d' \<noteq> None \<and> event_id d' \<noteq> Some []"
        by (auto simp: lacks_id_def split: option.splits)
      with Cons False Inr show ?thesis by auto
    qed
  qed
qed

lemma backfill_docs_have_id:
  "backfill_docs rid events = Inr ds \<Longrightarrow> d \<in> set ds \<Longrightarrow>
   event_id d \<noteq> None \<and> event_id d \<noteq> Some []"
proof (induction events arbitrary: ds)
  case Nil
  then show ?case by simp
next
  case (Cons e events)
  show ?case
  proof (cases "lacks_id e")
    case True
    with Cons show ?thesis by (auto simp: lacks_id_def split: option.splits)
  next
    case False
    then obtain i where i: "ev_event_id e = Some i" "i \<noteq> []"
      by (auto simp: lacks_id_def split: option.splits)
    from Cons.prems(1) i obtain d' ds' where d': "backfill_doc rid i e = Inr d'"
      and ds': "backfill_docs rid events = Inr ds'" and ds: "ds = d' # ds'"
      by (auto split: sum.splits)
    have "event_id d' = Some i"
      using d' by (auto simp: backfill_doc_def split: sum.splits)
    with Cons.IH [OF ds'] Cons.prems(2) ds i show ?thesis by auto
  qed
qed

lemma stored_docs_subset: "set (stored_docs env events) \<subseteq> set (live_docs events)"
  by (auto simp: stored_docs_def dest: set_takeWhileD)

section \<open>Properties of the sync loop\<close>

lemma store_docs_effects:
  "effects (fst (store_docs rejects w ds)) =
   effects w @ map Upsert (takeWhile (\<lambda>d. \<not> rejects d) ds)"
  by (induction ds arbitrary: w) auto

lemma store_docs_sync_token:
  "sync_token (fst (store_docs rejects st ds)) = sync_token st"
  by (induction ds arbitrary: st) auto

lemma store_docs_state_file:
  "state_file (fst (store_docs rejects st ds)) = state_file st"
  by (induction ds arbitrary: st) auto

lemma process_events_effects:
  "effects (snd (process_events env st events)) =
   effects st @ map Upsert (stored_docs env events)"
proof (cases "events = []")
  case True
  then show ?thesis by (simp add: process_events_def stored_docs_def)
next
  case False
  obtain r c where cd: "collect_docs events ([], event_cache st) = (r, c)"
    by (cases "collect_docs events ([], event_cache st)")
  then have r: "r = (case live_error events of None \<Rightarrow> Inr (live_docs events) | Some e \<Rightarrow> Inl e)"
    using collect_docs_fst [of events "[]" "event_cache st"]
    by (cases "live_error events") simp_all
  show ?thesis
  proof (cases "live_error events")
    case None
    then show ?thesis
      using False
      by (cases "live_docs events = []")
        (simp_all add: process_events_def cd r stored_docs_def store_docs_effects)
  next
    case (Some e)
    then show ?thesis
      using False by (simp add: process_events_def cd r stored_docs_def)
  qed
qed

lemma process_events_cursor:
  "sync_token (snd (process_events env st events)) = sync_token st
   \<and> state_file (snd (process_events env st events)) = state_file st"
proof -
  obtain r c where cd: "collect_docs events ([], event_cache st) = (r, c)"
    by (cases "collect_docs events ([], event_cache st)")
  show ?thesis
    by (cases r)
      (simp_all add: process_events_def cd store_docs_sync_token store_docs_state_file)
qed

lemma process_rooms_step:
  "events \<noteq> [] \<Longrightarrow>
   process_rooms env st ((rid, events) # rest) =
     (case live_error events of
        None \<Rightarrow> process_rooms env (snd (process_events env st events)) rest
      | Some e \<Rightarrow> (Inl e, snd (process_events env st events)))"
proof -
  assume ne: "events \<noteq> []"
  obtain r st1 where pe: "process_events env st events = (r, st1)"
    by (cases "process_events env st events")
  then have r: "r = (case live_error events of None \<Rightarrow> Inr () | Some e \<Rightarrow> Inl e)"
    using process_events_outcome [of env st events] by simp
  show ?thesis
    using ne by (cases "live_error events") (simp_all add: pe r)
qed

lemma process_rooms_outcome:
  "fst (process_rooms env st join) =
   (case cycle_error join of None \<Rightarrow> Inr () | Some e \<Rightarrow> Inl e)"
proof (induction join arbitrary: st)
  case Nil
  then show ?case by simp
next
  case (Cons a join)
  obtain rid events where a: "a = (rid, events)" by (cases a)
  show ?case
  proof (cases "events = []")
    case True
    then show ?thesis by (simp add: a Cons.IH)
  next
    case False
    then show ?thesis
      by (cases "live_error events")
        (simp_all add: a process_rooms_step Cons.IH del: process_rooms.simps)
  qed
qed

lemma process_rooms_effects:
  "effects (snd (process_rooms env st join)) = effects st @ map Upsert (cycle_docs env join)"
proof (induction join arbitrary: st)
  case Nil
  then show ?case by simp
next
  case (Cons a join)
  obtain rid events where a: "a = (rid, events)" by (cases a)
  show ?case
  proof (cases "events = []")
    case True
    then show ?thesis by (simp add: a Cons.IH stored_docs_def)
  next
    case False
    then show ?thesis
      by (cases "live_error events")
        (simp_all add: a process_rooms_step Cons.IH process_events_effects
          del: process_rooms.simps)
  qed
qed

lemma process_rooms_collection:
  "events_collection (snd (process_rooms env st join)) =
   upsert_all (events_collection st) (cycle_docs env join)"
proof (induction join arbitrary: st)
  case Nil
  then show ?case by simp
next
  case (Cons a join)
  obtain rid events where a: "a = (rid, events)" by (cases a)
  show ?case
  proof (cases "events = []")
    case True
    then show ?thesis by (simp add: a Cons.IH stored_docs_def)
  next
    case False
    then show ?thesis
      by (cases "live_error events")
        (simp_all add: a process_rooms_step Cons.IH process_events_collection
          upsert_all_append del: process_rooms.simps)
  qed
qed

lemma process_rooms_cursor:
  "sync_token (snd (process_rooms env st join)) = sync_token st
   \<and> state_file (snd (process_rooms env st join)) = state_file st"
proof (induction join arbitrary: st)
  case Nil
  then show ?case by simp
next
  case (Cons a join)
  obtain rid events where a: "a = (rid, events)" by (cases a)
  show ?case
  proof (cases "events = []")
    case True
    then show ?thesis by (simp add: a Cons.IH)
  next
    case False
    then show ?thesis
      by (cases "live_error events")
        (simp_all add: a process_rooms_step Cons.IH process_events_cursor
          del: process_rooms.simps)
  qed
qed

lemma save_state_fields:
  "sync_token (save_state env st) = sync_token st
   \<and> events_collection (save_state env st) = events_collection st
   \<and> event_cache (save_state env st) = event_cache st"
  by (cases "state_file_write env") (simp_all add: save_state_def)

lemma save_state_file:
  "state_file (save_state env st) =
   (case state_file_write env of
      Written \<Rightarrow> Some (json_dumps_state (sync_token st))
    | RaisesBeforeOpen \<Rightarrow> state_file st
    | RaisesAfterOpen \<Rightarrow> Some [])"
  by (cases "state_file_write env") (simp_all add: save_state_def write_text_def)

lemma save_state_effects:
  "effects (save_state env st) =
   effects st @
   (case state_file_write env of
      Written \<Rightarrow> [WriteState (json_dumps_state (sync_token st))]
    | RaisesBeforeOpen \<Rightarrow> []
    | RaisesAfterOpen \<Rightarrow> [WriteState []])"
  by (cases "state_file_write env") (simp_all add: save_state_def)

lemma sync_cycle_response:
  "sync_cycle env st (SyncResponse next_batch join) =
   (let st1 = snd (process_rooms env
                (save_state env (st\<lparr>effects := effects st @ [Sync (sync_token st)],
                                     sync_token := Some next_batch\<rparr>)) join)
    in case cycle_error join of
         None \<Rightarrow> st1
       | Some e \<Rightarrow> st1\<lparr>effects := effects st1 @ [Sleep 5]\<rparr>)"
proof -
  let ?st0 = "save_state env (st\<lparr>effects := effects st @ [Sync (sync_token st)],
                                  sync_token := Some next_batch\<rparr>)"
  obtain r st1 where pr: "process_rooms env ?st0 join = (r, st1)"
    by (cases "process_rooms env ?st0 join")
  then have r: "r = (case cycle_error join of None \<Rightarrow> Inr () | Some e \<Rightarrow> Inl e)"
    using process_rooms_outcome [of env ?st0 join] by simp
  show ?thesis
    by (cases "cycle_error join") (simp_all add: sync_cycle_def Let_def pr r)
qed

lemma sync_cycle_response_effects:
  "effects (sync_cycle env st (SyncResponse next_batch join)) =
   effects st @ Sync (sync_token st) #
     (case state_file_write env of
        Written \<Rightarrow> [WriteState (json_dumps_state (Some next_batch))]
      | RaisesBeforeOpen \<Rightarrow> []
      | RaisesAfterOpen \<Rightarrow> [WriteState []]) @
     map Upsert (cycle_docs env join) @
     (case cycle_error join of None \<Rightarrow> [] | Some e \<Rightarrow> [Sleep 5])"
  by (cases "cycle_error join"; cases "state_file_write env")
    (simp_all add: sync_cycle_response Let_def process_rooms_effects save_state_effects)

lemma sync_cycle_response_cursor:
  "sync_token (sync_cycle env st (SyncResponse next_batch join)) = Some next_batch
   \<and> state_file (sync_cycle env st (SyncResponse next_batch join)) =
       (case state_file_write env of
          Written \<Rightarrow> Some (json_dumps_state (Some next_batch))
        | RaisesBeforeOpen \<Rightarrow> state_file st
        | RaisesAfterOpen \<Rightarrow> Some [])"
  by (cases "cycle_error join"; cases "state_file_write env")
    (simp_all add: sync_cycle_response Let_def process_rooms_cursor save_state_fields
      save_state_file)

lemma sync_cycle_response_collection:
  "events_collection (sync_cycle env st (SyncResponse next_batch join)) =
   upsert_all (events_collection st) (cycle_docs env join)"
  by (cases "cycle_error join")
    (simp_all add: sync_cycle_response Let_def process_rooms_collection save_state_fields)

lemma sync_cycle_failed_poll:
  "resp = SyncRaises \<or> resp = SyncErrorResponse \<Longrightarrow>
   sync_cycle env st resp = st\<lparr>effects := effects st @ [Sync (sync_token st), Sleep 5]\<rparr>"
  by (auto simp: sync_cycle_def Let_def)

lemma sync_cycle_starts_with_poll:
  "\<exists>rest. effects (sync_cycle env st resp) = effects st @ Sync (sync_token st) # rest"
  by (cases resp) (simp_all add: sync_cycle_response_effects sync_cycle_failed_poll)

lemma sync_loop_extends:
  "\<exists>rest. effects (sync_loop env st resps) = effects st @ rest"
proof (induction resps arbitrary: st)
  case Nil
  then show ?case by simp
next
  case (Cons resp resps)
  obtain r1 where r1: "effects (sync_cycle env st resp) = effects st @ Sync (sync_token st) # r1"
    using sync_cycle_starts_with_poll by blast
  obtain r2 where "effects (sync_loop env (sync_cycle env st resp) resps) =
      effects (sync_cycle env st resp) @ r2"
    using Cons.IH by blast
  with r1 show ?case by simp
qed

lemma json_dumps_state_not_Nil: "json_dumps_state tok \<noteq> []"
  by (simp add: json_dumps_state_def)

section \<open>Properties of the backfill walk\<close>

lemma backfill_walk_no_token:
  "start_token = None \<or> start_token = Some [] \<Longrightarrow>
   backfill_walk env rid n k start_token event_count w = (Inr event_count, w)"
  by (cases n) auto

lemma backfill_walk_empty_page:
  assumes "tok \<noteq> []"
    and "room_messages env rid k tok = RoomMessagesReturns chunk start"
    and "chunk = None \<or> chunk = Some []"
  shows "backfill_walk env rid (Suc n) k (Some tok) event_count w =
    (Inr event_count, w\<lparr>effects := effects w @ [RoomMessages rid tok]\<rparr>)"
  using assms by auto

lemma backfill_walk_last_page:
  assumes "tok \<noteq> []"
    and "room_messages env rid k tok = RoomMessagesReturns (Some events) start"
    and "events \<noteq> []"
    and "start = None \<or> start = Some None \<or> start = Some (Some [])"
  shows "backfill_walk env rid (Suc n) k (Some tok) event_count w =
    store_batch env rid events event_count
      (w\<lparr>effects := effects w @ [RoomMessages rid tok]\<rparr>)"
proof -
  obtain r w1 where sb: "store_batch env rid events event_count
      (w\<lparr>effects := effects w @ [RoomMessages rid tok]\<rparr>) = (r, w1)"
    by (cases "store_batch env rid events event_count
      (w\<lparr>effects := effects w @ [RoomMessages rid tok]\<rparr>)")
  show ?thesis
    using assms by (cases r) (auto simp: sb backfill_walk_no_token)
qed

lemma store_docs_raised:
  "snd (store_docs rejects w ds) = (\<exists>d \<in> set ds. rejects d)"
  by (induction ds arbitrary: w) auto

lemma store_batch_built:
  "backfill_docs rid events = Inr ds \<Longrightarrow>
   fst (store_batch env rid events event_count w) =
     Inr (if \<exists>d \<in> set ds. db_rejects env d then event_count
          else event_count + length ds)"
proof -
  assume ds: "backfill_docs rid events = Inr ds"
  obtain w1 raised where sd: "store_docs (db_rejects env) w ds = (w1, raised)"
    by (cases "store_docs (db_rejects env) w ds")
  then have "raised = (\<exists>d \<in> set ds. db_rejects env d)"
    using store_docs_raised [of "db_rejects env" w ds] by simp
  then show ?thesis
    by (cases "ds = []") (simp_all add: store_batch_def ds sd)
qed

lemma store_batch_not_built:
  "backfill_docs rid events = Inl e \<Longrightarrow>
   store_batch env rid events event_count w = (Inl e, w)"
  by (simp add: store_batch_def)

lemma backfill_walk_raises:
  assumes "tok \<noteq> []" and "room_messages env rid k tok = RoomMessagesRaises"
  shows "backfill_walk env rid (Suc n) k (Some tok) event_count w =
    (Inl ClientError, w\<lparr>effects := effects w @ [RoomMessages rid tok]\<rparr>)"
  using assms by auto

lemma backfill_room_failure_is_zero:
  "fst (backfill_room_try env rid limit w) = Inl e \<Longrightarrow> fst (backfill_room env rid limit w) = 0"
  by (cases "backfill_room_try env rid limit w") (auto simp: backfill_room_def)

lemma backfill_room_success_is_count:
  "fst (backfill_room_try env rid limit w) = Inr n \<Longrightarrow> fst (backfill_room env rid limit w) = n"
  by (cases "backfill_room_try env rid limit w") (auto simp: backfill_room_def)

lemma backfill_room_world:
  "snd (backfill_room env rid limit w) = snd (backfill_room_try env rid limit w)"
  by (cases "backfill_room_try env rid limit w") (auto simp: backfill_room_def split: sum.splits)

lemma backfill_rooms_dom:
  "dom (fst (backfill_rooms env rids results w)) = dom results \<union> set rids"
proof (induction rids arbitrary: results w)
  case Nil
  then show ?case by simp
next
  case (Cons rid rids)
  then show ?case by (auto split: prod.splits)
qed

lemma backfill_rooms_other:
  "rid \<notin> set rids \<Longrightarrow> fst (backfill_rooms env rids results w) rid = results rid"
proof (induction rids arbitrary: results w)
  case Nil
  then show ?case by simp
next
  case (Cons r rids)
  then show ?case by (auto split: prod.splits)
qed

lemma backfill_rooms_append:
  "backfill_rooms env (xs @ ys) results w =
   backfill_rooms env ys (fst (backfill_rooms env xs results w)) (snd (backfill_rooms env xs results w))"
proof (induction xs arbitrary: results w)
  case Nil
  then show ?case by simp
next
  case (Cons x xs)
  obtain n w1 where r: "backfill_room env x 1000 w = (n, w1)"
    by (cases "backfill_room env x 1000 w")
  have "backfill_rooms env ((x # xs) @ ys) results w =
      backfill_rooms env (xs @ ys) (results(x \<mapsto> n)) w1"
    by (simp add: r)
  also have "\<dots> = backfill_rooms env ys
      (fst (backfill_rooms env xs (results(x \<mapsto> n)) w1))
      (snd (backfill_rooms env xs (results(x \<mapsto> n)) w1))"
    by (rule Cons.IH)
  also have "backfill_rooms env xs (results(x \<mapsto> n)) w1 = backfill_rooms env (x # xs) results w"
    by (simp add: r)
  finally show ?case .
qed

lemma backfill_rooms_entry:
  assumes "rid \<notin> set post"
  shows "fst (backfill_rooms env (pre @ rid # post) results w) rid =
    Some (fst (backfill_room env rid 1000 (snd (backfill_rooms env pre results w))))"
proof -
  obtain n w1 where r: "backfill_room env rid 1000 (snd (backfill_rooms env pre results w)) = (n, w1)"
    by (cases "backfill_room env rid 1000 (snd (backfill_rooms env pre results w))")
  show ?thesis
    using assms by (simp add: backfill_rooms_append [of env pre] r backfill_rooms_other)
qed

lemma backfill_room_first_page_empty:
  assumes "map_of (rooms env) rid = Some (Some tok)" and "tok \<noteq> []"
    and "room_messages env rid 0 tok = RoomMessagesReturns (Some []) start"
  shows "backfill_room env rid limit w = (0, w)
       \<or> backfill_room env rid limit w = (0, w\<lparr>effects := effects w @ [RoomMessages rid tok]\<rparr>)"
proof (cases "range_len limit (backfill_batch_size env)")
  case None
  then show ?thesis
    using assms by (simp add: backfill_room_def backfill_room_try_def)
next
  case (Some n)
  show ?thesis
  proof (cases n)
    case 0
    then show ?thesis
      using assms Some by (simp add: backfill_room_def backfill_room_try_def)
  next
    case (Suc m)
    have "backfill_walk env rid (Suc m) 0 (Some tok) 0 w =
        (Inr 0, w\<lparr>effects := effects w @ [RoomMessages rid tok]\<rparr>)"
      using assms(2,3) by (intro backfill_walk_empty_page) auto
    then show ?thesis
      using assms(1) Some Suc by (simp add: backfill_room_def backfill_room_try_def)
  qed
qed

section \<open>The store: claims\<close>

text \<open>
  C2. For every collection and every batch of events, delivering the batch a second time
  leaves the collection as the first delivery left it, on the live path
  (\<^verbatim>\<open>_process_events\<close>) and on the backfill path (the storing of one page), whichever
  documents the database rejects and whether or not an event of the batch makes the
  serializer raise. \<^verbatim>\<open>replace_one\<close> with \<^verbatim>\<open>upsert=True\<close> appends the
  document when no document has its id, and otherwise puts it in the place of the first
  document with that id, so the ids of the collection stay as they were; a collection
  without two documents of one id stays so.
\<close>

theorem upsert_replay_idempotent:
  "events_collection (snd (process_events env (snd (process_events env st events)) events)) =
     events_collection (snd (process_events env st events))
   \<and> events_collection (snd (store_batch env rid events m (snd (store_batch env rid events n w)))) =
     events_collection (snd (store_batch env rid events n w))
   \<and> (event_id d \<notin> event_id ` set coll \<longrightarrow> replace_one coll (event_id d) d = coll @ [d])
   \<and> (event_id d \<in> event_id ` set coll \<longrightarrow>
        replace_one coll (event_id d) d =
          takeWhile (\<lambda>x. event_id x \<noteq> event_id d) coll @
          d # tl (dropWhile (\<lambda>x. event_id x \<noteq> event_id d) coll)
        \<and> map event_id (replace_one coll (event_id d) d) = map event_id coll)
   \<and> (distinct (map event_id (events_collection st)) \<longrightarrow>
        distinct (map event_id (events_collection (snd (process_events env st events)))))
   \<and> (distinct (map event_id (events_collection w)) \<longrightarrow>
        distinct (map event_id (events_collection (snd (store_batch env rid events n w)))))"
proof -
  have c1: "events_collection (snd (process_events env (snd (process_events env st events)) events)) =
      events_collection (snd (process_events env st events))"
    by (simp only: process_events_collection upsert_all_twice)
  have c2: "events_collection
        (snd (store_batch env rid events m (snd (store_batch env rid events n w)))) =
      events_collection (snd (store_batch env rid events n w))"
    by (simp only: store_batch_collection upsert_all_twice)
  have c3: "event_id d \<notin> event_id ` set coll \<longrightarrow> replace_one coll (event_id d) d = coll @ [d]"
    by (simp add: replace_one_absent)
  have c4: "event_id d \<in> event_id ` set coll \<longrightarrow>
      replace_one coll (event_id d) d =
        takeWhile (\<lambda>x. event_id x \<noteq> event_id d) coll @
        d # tl (dropWhile (\<lambda>x. event_id x \<noteq> event_id d) coll)
      \<and> map event_id (replace_one coll (event_id d) d) = map event_id coll"
    using replace_one_present [of "event_id d" coll d] replace_one_present_ids [of d coll]
    by blast
  have d1: "distinct (map event_id (events_collection st)) \<longrightarrow>
      distinct (map event_id (events_collection (snd (process_events env st events))))"
    by (simp only: process_events_collection) (simp add: distinct_upsert_all)
  have d2: "distinct (map event_id (events_collection w)) \<longrightarrow>
      distinct (map event_id (events_collection (snd (store_batch env rid events n w))))"
    by (simp only: store_batch_collection) (simp add: distinct_upsert_all)
  from c1 c2 c3 c4 d1 d2 show ?thesis by blast
qed

theorem upsert_replay_idempotent_witness:
  "events_collection
     (snd (process_events example_env
        (snd (process_events example_env example_indexer
           [example_event (Some ''e1''), example_event (Some ''e1'')]))
        [example_event (Some ''e1''), example_event (Some ''e1'')])) =
     [example_doc ''e1'']
   \<and> replace_one [] (Some ''e1'') (example_doc ''e1'') = [example_doc ''e1'']
   \<and> replace_one [example_doc ''e1''] (Some ''e1'') ((example_doc ''e1'')\<lparr>timestamp := 7\<rparr>) =
     [(example_doc ''e1'')\<lparr>timestamp := 7\<rparr>]"
proof -
  have once: "events_collection (snd (process_events example_env example_indexer
      [example_event (Some ''e1''), example_event (Some ''e1'')])) = [example_doc ''e1'']"
    by (simp add: process_events_collection stored_docs_def lacks_id_def serialize_event_def
        timestamp_of_def example_env_def example_indexer_def example_event_def example_doc_def)
  show ?thesis
    using once
      upsert_replay_idempotent
        [of example_env example_indexer "[example_event (Some ''e1''), example_event (Some ''e1'')]"
          "''B''" 0 0 example_world "example_doc ''e1''" "[]"]
      upsert_replay_idempotent
        [of example_env example_indexer "[example_event (Some ''e1''), example_event (Some ''e1'')]"
          "''B''" 0 0 example_world "(example_doc ''e1'')\<lparr>timestamp := 7\<rparr>"
          "[example_doc ''e1'']"]
    by (simp add: example_doc_def)
qed

section \<open>The serializer: claims\<close>

text \<open>
  C5, as it is written, fails: the serializer signals nothing. Given an event without an
  id it returns a document, whose \<^verbatim>\<open>event_id\<close> is \<^verbatim>\<open>None\<close>.
\<close>

theorem idless_event_counterexample:
  "serialize_event (example_event None) =
     Inr \<lparr>event_id = None, room_id = None, sender = None, type = None,
          origin_server_ts = None, timestamp = 0, source = PDict [], content = PDict [],
          backfilled = None\<rparr>"
  by (simp add: serialize_event_def timestamp_of_def example_event_def)

text \<open>
  C5, amended. An event without an id (no attribute, \<^verbatim>\<open>None\<close> or the empty string) is
  skipped by the test both ingestion paths make before they build a document: the live
  path ends as it ends on the batch without that event, with the same outcome and the
  same indexer (store, cache, effects); the backfill path builds and stores the documents
  of the page without it; the other events of the batch are processed in their order; no
  document built by either path lacks an id, and an id in the collection after
  \<^verbatim>\<open>_process_events\<close> that was not there before is a proper id.
\<close>

theorem idless_event_skipped:
  assumes "lacks_id e"
  shows "process_events env st (xs @ e # ys) = process_events env st (xs @ ys)
       \<and> backfill_docs rid (xs @ e # ys) = backfill_docs rid (xs @ ys)
       \<and> store_batch env rid (xs @ e # ys) n w = store_batch env rid (xs @ ys) n w
       \<and> live_docs (xs @ e # ys) = live_docs (xs @ ys)
       \<and> live_error (xs @ e # ys) = live_error (xs @ ys)
       \<and> live_docs (xs @ e # ys) =
           live_docs xs @ (if live_error xs = None then live_docs ys else [])
       \<and> (\<forall>d \<in> set (live_docs events). event_id d \<noteq> None \<and> event_id d \<noteq> Some [])
       \<and> (\<forall>ds. backfill_docs rid events = Inr ds \<longrightarrow>
            (\<forall>d \<in> set ds. event_id d \<noteq> None \<and> event_id d \<noteq> Some []))
       \<and> (\<forall>i. i \<in> event_id ` set (events_collection (snd (process_events env st events))) \<longrightarrow>
            i \<in> event_id ` set (events_collection st) \<or> (i \<noteq> None \<and> i \<noteq> Some []))"
proof -
  have c1: "process_events env st (xs @ e # ys) = process_events env st (xs @ ys)"
    using assms by (rule process_events_skip)
  have c2: "backfill_docs rid (xs @ e # ys) = backfill_docs rid (xs @ ys)"
    using assms by (rule backfill_docs_skip)
  have c3: "store_batch env rid (xs @ e # ys) n w = store_batch env rid (xs @ ys) n w"
    by (simp add: store_batch_def c2)
  have c4: "live_docs (xs @ e # ys) = live_docs (xs @ ys)"
    using assms by (rule live_docs_skip)
  have c5: "live_error (xs @ e # ys) = live_error (xs @ ys)"
    using assms by (rule live_error_skip)
  have c6: "live_docs (xs @ e # ys) =
      live_docs xs @ (if live_error xs = None then live_docs ys else [])"
    unfolding c4 by (rule live_docs_append)
  have c7: "\<forall>d \<in> set (live_docs events). event_id d \<noteq> None \<and> event_id d \<noteq> Some []"
    using live_docs_have_id by blast
  have c8: "\<forall>ds. backfill_docs rid events = Inr ds \<longrightarrow>
      (\<forall>d \<in> set ds. event_id d \<noteq> None \<and> event_id d \<noteq> Some [])"
    using backfill_docs_have_id by blast
  have c9: "\<forall>i. i \<in> event_id ` set (events_collection (snd (process_events env st events))) \<longrightarrow>
      i \<in> event_id ` set (events_collection st) \<or> (i \<noteq> None \<and> i \<noteq> Some [])"
  proof (intro allI impI)
    fix i
    assume "i \<in> event_id ` set (events_collection (snd (process_events env st events)))"
    then have "i \<in> event_id ` set (events_collection st) \<or>
        i \<in> event_id ` set (stored_docs env events)"
      by (simp only: process_events_collection ids_upsert_all Un_iff)
    then show "i \<in> event_id ` set (events_collection st) \<or> (i \<noteq> None \<and> i \<noteq> Some [])"
    proof
      assume "i \<in> event_id ` set (events_collection st)"
      then show ?thesis by simp
    next
      assume "i \<in> event_id ` set (stored_docs env events)"
      then obtain d where d: "d \<in> set (stored_docs env events)" and i: "i = event_id d"
        by auto
      from d have "d \<in> set (live_docs events)"
        using stored_docs_subset by blast
      then show ?thesis using live_docs_have_id [of d events] i by simp
    qed
  qed
  show ?thesis
    by (intro conjI) (rule c1 c2 c3 c4 c5 c6 c7 c8 c9)+
qed

theorem idless_event_skipped_witness:
  "lacks_id (example_event None)
   \<and> events_collection (snd (process_events example_env example_indexer
        [example_event (Some ''e1''), example_event None, example_event (Some ''e2'')])) =
      [example_doc ''e1'', example_doc ''e2'']
   \<and> backfill_docs ''B''
        [example_event (Some ''e1''), example_event (Some []), example_event (Some ''e2'')] =
      Inr [(example_doc ''e1'')\<lparr>room_id := Some ''B'', backfilled := Some True\<rparr>,
           (example_doc ''e2'')\<lparr>room_id := Some ''B'', backfilled := Some True\<rparr>]"
proof -
  have h: "lacks_id (example_event None)" "lacks_id (example_event (Some []))"
    by (simp_all add: lacks_id_def example_event_def)
  have two: "events_collection (snd (process_events example_env example_indexer
        [example_event (Some ''e1''), example_event (Some ''e2'')])) =
      [example_doc ''e1'', example_doc ''e2'']"
    by (simp add: process_events_collection stored_docs_def lacks_id_def serialize_event_def
        timestamp_of_def example_event_def example_env_def example_indexer_def example_doc_def)
  have b: "backfill_docs ''B'' [example_event (Some ''e1''), example_event (Some ''e2'')] =
      Inr [(example_doc ''e1'')\<lparr>room_id := Some ''B'', backfilled := Some True\<rparr>,
           (example_doc ''e2'')\<lparr>room_id := Some ''B'', backfilled := Some True\<rparr>]"
    by (simp add: backfill_doc_def timestamp_of_def example_event_def example_doc_def)
  show ?thesis
    using h(1) two b
      idless_event_skipped [OF h(1), of example_env example_indexer "[example_event (Some ''e1'')]"
        "[example_event (Some ''e2'')]" "''B''" 0 example_world "[]"]
      idless_event_skipped [OF h(2), of example_env example_indexer "[example_event (Some ''e1'')]"
        "[example_event (Some ''e2'')]" "''B''" 0 example_world "[]"]
    by simp
qed

text \<open>
  C9, as it is written, fails. An event with an id and no sender gives a document whose
  \<^verbatim>\<open>sender\<close> is \<^verbatim>\<open>None\<close>, not the empty string, and likewise for \<^verbatim>\<open>type\<close>, on both
  paths. And a record is not always produced: for a text message without the attribute
  \<^verbatim>\<open>msgtype\<close> the serializer raises \<^verbatim>\<open>AttributeError\<close>, and for a timestamp that
  \<^verbatim>\<open>int()\<close> rejects both paths raise.
\<close>

theorem missing_fields_counterexample:
  "(\<exists>d. serialize_event (example_event (Some ''e1'')) = Inr d
        \<and> sender d = None \<and> sender d \<noteq> Some [] \<and> type d = None \<and> type d \<noteq> Some [])
   \<and> (\<exists>d. backfill_doc ''B'' ''e1'' (example_event (Some ''e1'')) = Inr d
        \<and> sender d = None \<and> sender d \<noteq> Some [] \<and> type d = None \<and> type d \<noteq> Some [])
   \<and> serialize_event ((example_event (Some ''e1''))
        \<lparr>ev_class := RoomMessageText (Some (PStr ''hello'')) None\<rparr>) = Inl AttributeError
   \<and> serialize_event ((example_event (Some ''e1''))
        \<lparr>ev_timestamp := Some (IntRaises TypeError)\<rparr>) = Inl TypeError
   \<and> backfill_doc ''B'' ''e1'' ((example_event (Some ''e1''))
        \<lparr>ev_timestamp := Some (IntRaises TypeError)\<rparr>) = Inl TypeError"
  by (simp add: serialize_event_def backfill_doc_def timestamp_of_def py_int_def
      example_event_def)

text \<open>
  C9, amended. For every event that carries an id and whose timestamp is absent or one
  that \<^verbatim>\<open>int()\<close> accepts, the backfill path produces a document, and so does the live
  path unless the event is a text message that lacks \<^verbatim>\<open>body\<close> or \<^verbatim>\<open>msgtype\<close>; an absent
  sender, type or timestamp never makes either path fail. The document carries the id; a
  missing \<^verbatim>\<open>sender\<close> or \<^verbatim>\<open>type\<close> is \<^verbatim>\<open>None\<close> in it, a missing \<^verbatim>\<open>timestamp\<close> is 0.
\<close>

theorem missing_fields_default:
  assumes "ev_event_id e = Some i" and "i \<noteq> []"
    and "ev_timestamp e = None \<or> (\<exists>n. ev_timestamp e = Some (IntOf n))"
  shows "(\<exists>d. backfill_doc rid i e = Inr d)
       \<and> ((\<forall>body msgtype. ev_class e = RoomMessageText body msgtype \<longrightarrow>
              body \<noteq> None \<and> msgtype \<noteq> None) \<longrightarrow>
            (\<exists>d. serialize_event e = Inr d \<and> live_docs [e] = [d] \<and> live_error [e] = None))
       \<and> (\<forall>d. serialize_event e = Inr d \<or> backfill_doc rid i e = Inr d \<longrightarrow>
            event_id d = Some i
            \<and> sender d = ev_sender e
            \<and> type d = ev_type e
            \<and> (ev_sender e = None \<longrightarrow> sender d = None)
            \<and> (ev_type e = None \<longrightarrow> type d = None)
            \<and> (ev_timestamp e = None \<longrightarrow> timestamp d = 0)
            \<and> (\<forall>n. ev_timestamp e = Some (IntOf n) \<longrightarrow> timestamp d = n))"
proof -
  from assms(3) obtain ts where ts: "timestamp_of e = Inr ts"
    by (auto simp: timestamp_of_def py_int_def)
  have c1: "\<exists>d. backfill_doc rid i e = Inr d"
    by (simp add: backfill_doc_def ts)
  have c2: "(\<forall>body msgtype. ev_class e = RoomMessageText body msgtype \<longrightarrow>
        body \<noteq> None \<and> msgtype \<noteq> None) \<longrightarrow>
      (\<exists>d. serialize_event e = Inr d \<and> live_docs [e] = [d] \<and> live_error [e] = None)"
  proof
    assume text_ok: "\<forall>body msgtype. ev_class e = RoomMessageText body msgtype \<longrightarrow>
        body \<noteq> None \<and> msgtype \<noteq> None"
    have "\<exists>d. serialize_event e = Inr d"
    proof (cases "ev_class e")
      case (RoomMessageText body msgtype)
      with text_ok obtain b m where "body = Some b" "msgtype = Some m" by auto
      with RoomMessageText show ?thesis by (simp add: serialize_event_def ts)
    next
      case OtherEvent
      then show ?thesis
        by (simp add: serialize_event_def ts split: option.splits pyval.splits)
    qed
    then obtain d where d: "serialize_event e = Inr d" by blast
    then show "\<exists>d. serialize_event e = Inr d \<and> live_docs [e] = [d] \<and> live_error [e] = None"
      using assms(1,2) by (simp add: lacks_id_def)
  qed
  have c3: "\<forall>d. serialize_event e = Inr d \<or> backfill_doc rid i e = Inr d \<longrightarrow>
      event_id d = Some i
      \<and> sender d = ev_sender e
      \<and> type d = ev_type e
      \<and> (ev_sender e = None \<longrightarrow> sender d = None)
      \<and> (ev_type e = None \<longrightarrow> type d = None)
      \<and> (ev_timestamp e = None \<longrightarrow> timestamp d = 0)
      \<and> (\<forall>n. ev_timestamp e = Some (IntOf n) \<longrightarrow> timestamp d = n)"
  proof (intro allI impI)
    fix d
    assume "serialize_event e = Inr d \<or> backfill_doc rid i e = Inr d"
    then show "event_id d = Some i
      \<and> sender d = ev_sender e
      \<and> type d = ev_type e
      \<and> (ev_sender e = None \<longrightarrow> sender d = None)
      \<and> (ev_type e = None \<longrightarrow> type d = None)
      \<and> (ev_timestamp e = None \<longrightarrow> timestamp d = 0)
      \<and> (\<forall>n. ev_timestamp e = Some (IntOf n) \<longrightarrow> timestamp d = n)"
    proof
      assume "serialize_event e = Inr d"
      then show ?thesis
        using assms(1)
        by (auto simp: serialize_event_def timestamp_of_def py_int_def split: sum.splits)
    next
      assume "backfill_doc rid i e = Inr d"
      then show ?thesis
        by (auto simp: backfill_doc_def timestamp_of_def py_int_def split: sum.splits)
    qed
  qed
  show ?thesis
    by (intro conjI) (rule c1 c2 c3)+
qed

theorem missing_fields_default_witness:
  "serialize_event (example_event (Some ''e1'')) = Inr (example_doc ''e1'')
   \<and> live_docs [example_event (Some ''e1'')] = [example_doc ''e1'']
   \<and> sender (example_doc ''e1'') = None
   \<and> type (example_doc ''e1'') = None
   \<and> timestamp (example_doc ''e1'') = 0
   \<and> backfill_doc ''B'' ''e1'' (example_event (Some ''e1'')) =
       Inr ((example_doc ''e1'')\<lparr>room_id := Some ''B'', backfilled := Some True\<rparr>)"
proof -
  have s: "serialize_event (example_event (Some ''e1'')) = Inr (example_doc ''e1'')"
    by (simp add: serialize_event_def timestamp_of_def example_event_def example_doc_def)
  have b: "backfill_doc ''B'' ''e1'' (example_event (Some ''e1'')) =
      Inr ((example_doc ''e1'')\<lparr>room_id := Some ''B'', backfilled := Some True\<rparr>)"
    by (simp add: backfill_doc_def timestamp_of_def example_event_def example_doc_def)
  show ?thesis
    using s b missing_fields_default [of "example_event (Some ''e1'')" "''e1''" "''B''"]
    by (simp add: example_event_def example_doc_def)
qed

section \<open>The sync loop: claims\<close>

text \<open>
  C1, as it is written, fails. In a cycle that receives one event, the new cursor is
  written to the state file before the event is stored; and when the database then
  rejects the event, the cycle ends with the new cursor persisted and the store empty.
\<close>

theorem checkpoint_before_store_counterexample:
  "effects (sync_cycle example_env example_indexer
      (SyncResponse ''s1'' [(''A'', [example_event (Some ''e1'')])])) =
     [Sync (Some ''s0''), WriteState (json_dumps_state (Some ''s1'')),
      Upsert (example_doc ''e1'')]
   \<and> state_file (sync_cycle (example_env\<lparr>db_rejects := \<lambda>d. True\<rparr>) example_indexer
      (SyncResponse ''s1'' [(''A'', [example_event (Some ''e1'')])])) =
     Some (json_dumps_state (Some ''s1''))
   \<and> events_collection (sync_cycle (example_env\<lparr>db_rejects := \<lambda>d. True\<rparr>) example_indexer
      (SyncResponse ''s1'' [(''A'', [example_event (Some ''e1'')])])) = []"
  by (simp add: sync_cycle_response_effects sync_cycle_response_cursor
      sync_cycle_response_collection stored_docs_def lacks_id_def serialize_event_def
      timestamp_of_def example_env_def example_indexer_def example_event_def example_doc_def)

text \<open>
  C1, amended. In every cycle that receives a \<^verbatim>\<open>SyncResponse\<close>, the cursor is set to
  \<^verbatim>\<open>next_batch\<close> and the state file is written first, and the events of the batch are
  stored after it, room by room. The write of the state file is not checked: when it
  raises, the exception is swallowed, and the file holds its old content or, when the
  file had been opened, nothing. The storing is not checked either: the rooms are stored
  up to the first document the database rejects in each batch, and up to the first room
  in which the serializer raises, after which the loop sleeps 5. In every case the cursor
  in memory is \<^verbatim>\<open>next_batch\<close> at the end of the cycle. The effects of the cycle are the
  poll, the write of the state file, the upserts and the sleep, in this order.
\<close>

theorem cursor_saved_before_store:
  "effects (sync_cycle env st (SyncResponse next_batch join)) =
     effects st @ Sync (sync_token st) #
       (case state_file_write env of
          Written \<Rightarrow> [WriteState (json_dumps_state (Some next_batch))]
        | RaisesBeforeOpen \<Rightarrow> []
        | RaisesAfterOpen \<Rightarrow> [WriteState []]) @
       map Upsert (cycle_docs env join) @
       (case cycle_error join of None \<Rightarrow> [] | Some e \<Rightarrow> [Sleep 5])
   \<and> sync_token (sync_cycle env st (SyncResponse next_batch join)) = Some next_batch
   \<and> state_file (sync_cycle env st (SyncResponse next_batch join)) =
       (case state_file_write env of
          Written \<Rightarrow> Some (json_dumps_state (Some next_batch))
        | RaisesBeforeOpen \<Rightarrow> state_file st
        | RaisesAfterOpen \<Rightarrow> Some [])
   \<and> events_collection (sync_cycle env st (SyncResponse next_batch join)) =
       upsert_all (events_collection st) (cycle_docs env join)"
  by (simp only: sync_cycle_response_effects sync_cycle_response_cursor
      sync_cycle_response_collection simp_thms)

theorem cursor_saved_before_store_witness:
  "effects (sync_cycle example_env example_indexer
      (SyncResponse ''s1''
        [(''A'', [example_event (Some ''e1'')]), (''B'', [example_event (Some ''e2'')])])) =
     [Sync (Some ''s0''), WriteState (json_dumps_state (Some ''s1'')),
      Upsert (example_doc ''e1''), Upsert (example_doc ''e2'')]
   \<and> effects (sync_cycle (example_env\<lparr>state_file_write := RaisesAfterOpen\<rparr>) example_indexer
      (SyncResponse ''s1''
        [(''A'', [(example_event (Some ''e1''))
                    \<lparr>ev_class := RoomMessageText (Some (PStr ''hello'')) None\<rparr>]),
         (''B'', [example_event (Some ''e2'')])])) =
     [Sync (Some ''s0''), WriteState [], Sleep 5]
   \<and> state_file (sync_cycle (example_env\<lparr>state_file_write := RaisesAfterOpen\<rparr>) example_indexer
      (SyncResponse ''s1''
        [(''A'', [(example_event (Some ''e1''))
                    \<lparr>ev_class := RoomMessageText (Some (PStr ''hello'')) None\<rparr>]),
         (''B'', [example_event (Some ''e2'')])])) = Some []
   \<and> sync_token (sync_cycle (example_env\<lparr>state_file_write := RaisesAfterOpen\<rparr>) example_indexer
      (SyncResponse ''s1''
        [(''A'', [(example_event (Some ''e1''))
                    \<lparr>ev_class := RoomMessageText (Some (PStr ''hello'')) None\<rparr>]),
         (''B'', [example_event (Some ''e2'')])])) = Some ''s1''"
  using cursor_saved_before_store [of example_env example_indexer "''s1''"
      "[(''A'', [example_event (Some ''e1'')]), (''B'', [example_event (Some ''e2'')])]"]
    cursor_saved_before_store [of "example_env\<lparr>state_file_write := RaisesAfterOpen\<rparr>"
      example_indexer "''s1''"
      "[(''A'', [(example_event (Some ''e1''))
                   \<lparr>ev_class := RoomMessageText (Some (PStr ''hello'')) None\<rparr>]),
        (''B'', [example_event (Some ''e2'')])]"]
  by (simp add: stored_docs_def lacks_id_def serialize_event_def timestamp_of_def
      example_env_def example_indexer_def example_event_def example_doc_def)

text \<open>
  C4, as it is written, fails for a storage failure. With a database that rejects every
  write, a cycle that receives one event ends with the cursor advanced to the new token,
  nothing stored and no back-off; the next poll is made from the new token.
\<close>

theorem storage_failure_counterexample:
  "effects (sync_loop (example_env\<lparr>db_rejects := \<lambda>d. True\<rparr>) example_indexer
      [SyncResponse ''s1'' [(''A'', [example_event (Some ''e1'')])], SyncRaises]) =
     [Sync (Some ''s0''), WriteState (json_dumps_state (Some ''s1'')),
      Sync (Some ''s1''), Sleep 5]
   \<and> sync_token (sync_cycle (example_env\<lparr>db_rejects := \<lambda>d. True\<rparr>) example_indexer
      (SyncResponse ''s1'' [(''A'', [example_event (Some ''e1'')])])) = Some ''s1''
   \<and> events_collection (sync_cycle (example_env\<lparr>db_rejects := \<lambda>d. True\<rparr>) example_indexer
      (SyncResponse ''s1'' [(''A'', [example_event (Some ''e1'')])])) = []"
proof -
  let ?env = "example_env\<lparr>db_rejects := \<lambda>d. True\<rparr>"
  let ?resp = "SyncResponse ''s1'' [(''A'', [example_event (Some ''e1'')])]"
  have e1: "effects (sync_cycle ?env example_indexer ?resp) =
      [Sync (Some ''s0''), WriteState (json_dumps_state (Some ''s1''))]"
    by (simp add: sync_cycle_response_effects stored_docs_def lacks_id_def
        serialize_event_def timestamp_of_def example_env_def example_indexer_def
        example_event_def)
  have t1: "sync_token (sync_cycle ?env example_indexer ?resp) = Some ''s1''"
    by (simp add: sync_cycle_response_cursor)
  have c1: "events_collection (sync_cycle ?env example_indexer ?resp) = []"
    by (simp add: sync_cycle_response_collection stored_docs_def lacks_id_def
        serialize_event_def timestamp_of_def example_env_def example_indexer_def
        example_event_def)
  have "effects (sync_loop ?env example_indexer [?resp, SyncRaises]) =
      effects (sync_cycle ?env example_indexer ?resp) @
        [Sync (sync_token (sync_cycle ?env example_indexer ?resp)), Sleep 5]"
    by (simp add: sync_cycle_failed_poll)
  with e1 t1 c1 show ?thesis by simp
qed

text \<open>
  C4, amended. When the poll itself fails, by an exception of \<^verbatim>\<open>client.sync\<close> or by an
  answer that is not a \<^verbatim>\<open>SyncResponse\<close>, the cycle changes nothing (cursor, state file,
  store, cache), sleeps 5 and the next poll is made from the same cursor. A cycle that
  receives a \<^verbatim>\<open>SyncResponse\<close> advances the cursor whatever happens to the events, and the
  next poll is made from the new cursor. A failure of the database is swallowed inside
  \<^verbatim>\<open>_process_events\<close> and by itself brings no back-off: the cycle sleeps, and then for
  5, exactly when the serializer raised on an event of the batch.
\<close>

theorem failed_poll_backs_off:
  assumes "resp = SyncRaises \<or> resp = SyncErrorResponse"
  shows "sync_cycle env st resp = st\<lparr>effects := effects st @ [Sync (sync_token st), Sleep 5]\<rparr>
       \<and> (\<exists>rest. effects (sync_loop env st (resp # next_resp # later)) =
            effects st @ [Sync (sync_token st), Sleep 5, Sync (sync_token st)] @ rest)
       \<and> sync_token (sync_cycle env st (SyncResponse next_batch join)) = Some next_batch
       \<and> (\<exists>n. Sleep n \<in> set (drop (length (effects st))
            (effects (sync_cycle env st (SyncResponse next_batch join))))) =
          (cycle_error join \<noteq> None)
       \<and> (\<forall>n. Sleep n \<in> set (drop (length (effects st))
            (effects (sync_cycle env st (SyncResponse next_batch join)))) \<longrightarrow> n = 5)
       \<and> (\<exists>rest. effects (sync_loop env st (SyncResponse next_batch join # next_resp # later)) =
            effects (sync_cycle env st (SyncResponse next_batch join)) @
            Sync (Some next_batch) # rest)"
proof -
  let ?st1 = "sync_cycle env st resp"
  have c1: "?st1 = st\<lparr>effects := effects st @ [Sync (sync_token st), Sleep 5]\<rparr>"
    using assms by (rule sync_cycle_failed_poll)
  have c2: "\<exists>rest. effects (sync_loop env st (resp # next_resp # later)) =
      effects st @ [Sync (sync_token st), Sleep 5, Sync (sync_token st)] @ rest"
  proof -
    obtain r1 where r1: "effects (sync_cycle env ?st1 next_resp) =
        effects ?st1 @ Sync (sync_token ?st1) # r1"
      using sync_cycle_starts_with_poll by blast
    obtain r2 where r2: "effects (sync_loop env (sync_cycle env ?st1 next_resp) later) =
        effects (sync_cycle env ?st1 next_resp) @ r2"
      using sync_loop_extends by blast
    have "effects ?st1 = effects st @ [Sync (sync_token st), Sleep 5]"
      and "sync_token ?st1 = sync_token st"
      by (simp_all add: c1)
    with r1 r2 show ?thesis by simp
  qed
  let ?st2 = "sync_cycle env st (SyncResponse next_batch join)"
  have c3: "sync_token ?st2 = Some next_batch"
    by (simp add: sync_cycle_response_cursor)
  have new: "drop (length (effects st)) (effects ?st2) =
      Sync (sync_token st) #
       (case state_file_write env of
          Written \<Rightarrow> [WriteState (json_dumps_state (Some next_batch))]
        | RaisesBeforeOpen \<Rightarrow> []
        | RaisesAfterOpen \<Rightarrow> [WriteState []]) @
       map Upsert (cycle_docs env join) @
       (case cycle_error join of None \<Rightarrow> [] | Some e \<Rightarrow> [Sleep 5])"
    by (simp add: sync_cycle_response_effects)
  have c4: "(\<exists>n. Sleep n \<in> set (drop (length (effects st)) (effects ?st2))) =
      (cycle_error join \<noteq> None)"
    unfolding new
    by (cases "cycle_error join"; cases "state_file_write env") auto
  have c5: "\<forall>n. Sleep n \<in> set (drop (length (effects st)) (effects ?st2)) \<longrightarrow> n = 5"
    unfolding new
    by (cases "cycle_error join"; cases "state_file_write env") auto
  have c6: "\<exists>rest. effects (sync_loop env st (SyncResponse next_batch join # next_resp # later)) =
      effects ?st2 @ Sync (Some next_batch) # rest"
  proof -
    obtain r1 where r1: "effects (sync_cycle env ?st2 next_resp) =
        effects ?st2 @ Sync (sync_token ?st2) # r1"
      using sync_cycle_starts_with_poll by blast
    obtain r2 where r2: "effects (sync_loop env (sync_cycle env ?st2 next_resp) later) =
        effects (sync_cycle env ?st2 next_resp) @ r2"
      using sync_loop_extends by blast
    from r1 r2 c3 show ?thesis by simp
  qed
  show ?thesis
    by (intro conjI) (rule c1 c2 c3 c4 c5 c6)+
qed

theorem failed_poll_backs_off_witness:
  "effects (sync_loop example_env example_indexer [SyncRaises, SyncErrorResponse]) =
     [Sync (Some ''s0''), Sleep 5, Sync (Some ''s0''), Sleep 5]
   \<and> sync_cycle example_env example_indexer SyncRaises =
     example_indexer\<lparr>effects := [Sync (Some ''s0''), Sleep 5]\<rparr>"
  using failed_poll_backs_off [of SyncRaises example_env example_indexer SyncErrorResponse "[]"]
    failed_poll_backs_off [of SyncErrorResponse example_env
      "example_indexer\<lparr>effects := [Sync (Some ''s0''), Sleep 5]\<rparr>" SyncErrorResponse "[]"]
  by (simp add: example_indexer_def)

text \<open>
  C6, as it is written, fails: between the opening of the state file, which truncates
  it, and the write, the file is empty, which is neither the old nor the new token. The
  same empty file is what a save leaves, without any crash, when the write raises after
  the file was opened.
\<close>

theorem save_not_atomic_counterexample:
  "\<not> (\<forall>c \<in> set (save_state_crash_states (example_indexer\<lparr>sync_token := Some ''s1''\<rparr>)).
        c = state_file example_indexer \<or> c = Some (json_dumps_state (Some ''s1'')))
   \<and> state_file (save_state (example_env\<lparr>state_file_write := RaisesAfterOpen\<rparr>)
        (example_indexer\<lparr>sync_token := Some ''s1''\<rparr>)) = Some []
   \<and> Some [] \<noteq> state_file example_indexer
   \<and> Some [] \<noteq> Some (json_dumps_state (Some ''s1''))"
  by (simp add: save_state_crash_states_def write_text_states_def save_state_def
      example_indexer_def example_env_def json_dumps_state_not_Nil [symmetric])

text \<open>
  C6, amended. \<^verbatim>\<open>_save_state\<close> writes the state file in place with one
  \<^verbatim>\<open>write_text\<close>, without a temporary file or a rename, and swallows every exception.
  After a save the file holds the new text when the write succeeded, its old content when
  the exception came before the file was opened, and nothing when it came after; these
  are the contents the file passes through during the call (old, empty, new), so a save
  can leave each of them and nothing else, and the empty one is never a token, the new
  text being never empty. The cursor in memory, the store and the cache are as before
  the save in every case.
\<close>

theorem save_state_in_place:
  "state_file (save_state env st) =
     (case state_file_write env of
        Written \<Rightarrow> Some (json_dumps_state (sync_token st))
      | RaisesBeforeOpen \<Rightarrow> state_file st
      | RaisesAfterOpen \<Rightarrow> Some [])
   \<and> effects (save_state env st) =
       effects st @
       (case state_file_write env of
          Written \<Rightarrow> [WriteState (json_dumps_state (sync_token st))]
        | RaisesBeforeOpen \<Rightarrow> []
        | RaisesAfterOpen \<Rightarrow> [WriteState []])
   \<and> sync_token (save_state env st) = sync_token st
   \<and> events_collection (save_state env st) = events_collection st
   \<and> event_cache (save_state env st) = event_cache st
   \<and> set (save_state_crash_states st) =
       {state_file (save_state (env\<lparr>state_file_write := outcome\<rparr>) st) | outcome. True}
   \<and> save_state_crash_states st =
       [state_file st, Some [], Some (json_dumps_state (sync_token st))]
   \<and> json_dumps_state tok \<noteq> []"
proof -
  have c1: "state_file (save_state env st) =
     (case state_file_write env of
        Written \<Rightarrow> Some (json_dumps_state (sync_token st))
      | RaisesBeforeOpen \<Rightarrow> state_file st
      | RaisesAfterOpen \<Rightarrow> Some [])"
    by (rule save_state_file)
  have c2: "effects (save_state env st) =
       effects st @
       (case state_file_write env of
          Written \<Rightarrow> [WriteState (json_dumps_state (sync_token st))]
        | RaisesBeforeOpen \<Rightarrow> []
        | RaisesAfterOpen \<Rightarrow> [WriteState []])"
    by (rule save_state_effects)
  have c3: "sync_token (save_state env st) = sync_token st"
    and c4: "events_collection (save_state env st) = events_collection st"
    and c5: "event_cache (save_state env st) = event_cache st"
    by (simp_all add: save_state_fields)
  have c7: "save_state_crash_states st =
      [state_file st, Some [], Some (json_dumps_state (sync_token st))]"
    by (simp add: save_state_crash_states_def write_text_states_def)
  have c6: "set (save_state_crash_states st) =
      {state_file (save_state (env\<lparr>state_file_write := outcome\<rparr>) st) | outcome. True}"
  proof
    show "set (save_state_crash_states st) \<subseteq>
        {state_file (save_state (env\<lparr>state_file_write := outcome\<rparr>) st) | outcome. True}"
    proof
      fix c
      assume "c \<in> set (save_state_crash_states st)"
      then consider "c = state_file st" | "c = Some []"
        | "c = Some (json_dumps_state (sync_token st))"
        by (auto simp: c7)
      then show "c \<in> {state_file (save_state (env\<lparr>state_file_write := outcome\<rparr>) st)
          | outcome. True}"
      proof cases
        case 1
        then have "c = state_file (save_state (env\<lparr>state_file_write := RaisesBeforeOpen\<rparr>) st)"
          by (simp add: save_state_file)
        then show ?thesis by blast
      next
        case 2
        then have "c = state_file (save_state (env\<lparr>state_file_write := RaisesAfterOpen\<rparr>) st)"
          by (simp add: save_state_file)
        then show ?thesis by blast
      next
        case 3
        then have "c = state_file (save_state (env\<lparr>state_file_write := Written\<rparr>) st)"
          by (simp add: save_state_file)
        then show ?thesis by blast
      qed
    qed
  next
    show "{state_file (save_state (env\<lparr>state_file_write := outcome\<rparr>) st) | outcome. True}
        \<subseteq> set (save_state_crash_states st)"
    proof
      fix c
      assume "c \<in> {state_file (save_state (env\<lparr>state_file_write := outcome\<rparr>) st)
          | outcome. True}"
      then obtain outcome where
        "c = state_file (save_state (env\<lparr>state_file_write := outcome\<rparr>) st)" by blast
      then show "c \<in> set (save_state_crash_states st)"
        by (cases outcome) (simp_all add: save_state_file c7)
    qed
  qed
  have c8: "json_dumps_state tok \<noteq> []"
    by (rule json_dumps_state_not_Nil)
  show ?thesis
    by (intro conjI) (rule c1 c2 c3 c4 c5 c6 c7 c8)+
qed

theorem save_state_in_place_witness:
  "state_file (save_state example_env (example_indexer\<lparr>sync_token := Some ''s1''\<rparr>)) =
     Some (json_dumps_state (Some ''s1''))
   \<and> save_state (example_env\<lparr>state_file_write := RaisesBeforeOpen\<rparr>) example_indexer =
     example_indexer
   \<and> state_file (save_state (example_env\<lparr>state_file_write := RaisesAfterOpen\<rparr>)
        (example_indexer\<lparr>sync_token := Some ''s1''\<rparr>)) = Some []
   \<and> save_state_crash_states (example_indexer\<lparr>sync_token := Some ''s1''\<rparr>) =
     [Some (json_dumps_state (Some ''s0'')), Some [], Some (json_dumps_state (Some ''s1''))]"
  using save_state_in_place [of example_env "example_indexer\<lparr>sync_token := Some ''s1''\<rparr>" None]
    save_state_in_place [of "example_env\<lparr>state_file_write := RaisesAfterOpen\<rparr>"
      "example_indexer\<lparr>sync_token := Some ''s1''\<rparr>" None]
  by (simp add: example_indexer_def example_env_def save_state_def)

section \<open>Backfill: claims\<close>

text \<open>
  C7, as it is written, fails. A first page that carries no token for a further step and
  one event whose timestamp \<^verbatim>\<open>int()\<close> rejects ends the walk by that exception, not
  normally: the \<^verbatim>\<open>try\<close> block of \<^verbatim>\<open>backfill_room\<close> is left by \<^verbatim>\<open>TypeError\<close>, which the
  \<^verbatim>\<open>except\<close> turns into the count 0.
\<close>

theorem backfill_walk_error_counterexample:
  "fst (backfill_room_try
      (example_env\<lparr>room_messages := \<lambda>rid k tok. RoomMessagesReturns
         (Some [(example_event (Some ''e1''))\<lparr>ev_timestamp := Some (IntRaises TypeError)\<rparr>])
         None\<rparr>)
      ''B'' 1000 example_world) = Inl TypeError
   \<and> backfill_room
      (example_env\<lparr>room_messages := \<lambda>rid k tok. RoomMessagesReturns
         (Some [(example_event (Some ''e1''))\<lparr>ev_timestamp := Some (IntRaises TypeError)\<rparr>])
         None\<rparr>)
      ''B'' 1000 example_world = (0, example_world\<lparr>effects := [RoomMessages ''B'' ''u0'']\<rparr>)"
proof -
  let ?bad = "(example_event (Some ''e1''))\<lparr>ev_timestamp := Some (IntRaises TypeError)\<rparr>"
  let ?env = "example_env\<lparr>room_messages := \<lambda>rid k tok. RoomMessagesReturns (Some [?bad]) None\<rparr>"
  have turns: "range_len 1000 (backfill_batch_size ?env) = Some (Suc 9)"
    by (simp add: range_len_def example_env_def)
  have room: "map_of (rooms ?env) ''B'' = Some (Some ''u0'')"
    by (simp add: example_env_def)
  have "backfill_walk ?env ''B'' (Suc 9) 0 (Some ''u0'') 0 example_world =
      store_batch ?env ''B'' [?bad] 0
        (example_world\<lparr>effects := effects example_world @ [RoomMessages ''B'' ''u0'']\<rparr>)"
    by (rule backfill_walk_last_page [where start = None]) simp_all
  also have "\<dots> = (Inl TypeError,
      example_world\<lparr>effects := effects example_world @ [RoomMessages ''B'' ''u0'']\<rparr>)"
    by (rule store_batch_not_built)
      (simp add: backfill_doc_def timestamp_of_def py_int_def example_event_def)
  finally have "backfill_room_try ?env ''B'' 1000 example_world =
      (Inl TypeError, example_world\<lparr>effects := [RoomMessages ''B'' ''u0'']\<rparr>)"
    by (simp only: backfill_room_try_def room turns option.case) (simp add: example_world_def)
  then show ?thesis
    by (simp add: backfill_room_def)
qed

text \<open>
  C7, amended. The walk of \<^verbatim>\<open>backfill_room\<close> is a loop of a fixed number of turns, so it
  always ends; it ends as a normal return, not as an error, when a page has no
  \<^verbatim>\<open>chunk\<close> or an empty one (with the count so far, and nothing written for that page),
  and when the token it is to start from is \<^verbatim>\<open>None\<close> or empty. When a page with events
  carries no token for a further step (no \<^verbatim>\<open>start\<close> attribute, or one that is \<^verbatim>\<open>None\<close>
  or empty), the walk ends with that page, as the storing of the page ends: normally,
  with the count, when the documents of its events could be built, and by the exception
  when \<^verbatim>\<open>int()\<close> rejected the timestamp of one of them, nothing of the page being stored.
  When the first page of a room has zero events, \<^verbatim>\<open>backfill_room\<close> returns 0, the
  collection is what it was and no upsert has been made.
\<close>

theorem backfill_walk_ends_normally:
  assumes "tok \<noteq> []"
    and "room_messages env rid k tok = RoomMessagesReturns chunk start"
  shows "(chunk = None \<or> chunk = Some [] \<longrightarrow>
            backfill_walk env rid (Suc n) k (Some tok) event_count w =
              (Inr event_count, w\<lparr>effects := effects w @ [RoomMessages rid tok]\<rparr>))
       \<and> (\<forall>events. chunk = Some events \<and> events \<noteq> []
              \<and> (start = None \<or> start = Some None \<or> start = Some (Some [])) \<longrightarrow>
            backfill_walk env rid (Suc n) k (Some tok) event_count w =
              store_batch env rid events event_count
                (w\<lparr>effects := effects w @ [RoomMessages rid tok]\<rparr>)
            \<and> (\<forall>ds. backfill_docs rid events = Inr ds \<longrightarrow>
                  fst (backfill_walk env rid (Suc n) k (Some tok) event_count w) =
                    Inr (if \<exists>d \<in> set ds. db_rejects env d then event_count
                         else event_count + length ds))
            \<and> (\<forall>e. backfill_docs rid events = Inl e \<longrightarrow>
                  backfill_walk env rid (Suc n) k (Some tok) event_count w =
                    (Inl e, w\<lparr>effects := effects w @ [RoomMessages rid tok]\<rparr>)))
       \<and> backfill_walk env rid n k None event_count w = (Inr event_count, w)
       \<and> backfill_walk env rid n k (Some []) event_count w = (Inr event_count, w)
       \<and> (k = 0 \<and> chunk = Some [] \<and> map_of (rooms env) rid = Some (Some tok) \<longrightarrow>
            fst (backfill_room env rid limit w) = 0
            \<and> fst (backfill_room_try env rid limit w) \<noteq> Inl ClientError
            \<and> events_collection (snd (backfill_room env rid limit w)) = events_collection w
            \<and> (\<forall>d. Upsert d \<in> set (effects (snd (backfill_room env rid limit w))) \<longrightarrow>
                   Upsert d \<in> set (effects w)))"
proof -
  have c1: "chunk = None \<or> chunk = Some [] \<longrightarrow>
      backfill_walk env rid (Suc n) k (Some tok) event_count w =
        (Inr event_count, w\<lparr>effects := effects w @ [RoomMessages rid tok]\<rparr>)"
    using assms backfill_walk_empty_page [of tok env rid k chunk start n event_count w] by blast
  have c2: "\<forall>events. chunk = Some events \<and> events \<noteq> []
        \<and> (start = None \<or> start = Some None \<or> start = Some (Some [])) \<longrightarrow>
      backfill_walk env rid (Suc n) k (Some tok) event_count w =
        store_batch env rid events event_count
          (w\<lparr>effects := effects w @ [RoomMessages rid tok]\<rparr>)
      \<and> (\<forall>ds. backfill_docs rid events = Inr ds \<longrightarrow>
            fst (backfill_walk env rid (Suc n) k (Some tok) event_count w) =
              Inr (if \<exists>d \<in> set ds. db_rejects env d then event_count
                   else event_count + length ds))
      \<and> (\<forall>e. backfill_docs rid events = Inl e \<longrightarrow>
            backfill_walk env rid (Suc n) k (Some tok) event_count w =
              (Inl e, w\<lparr>effects := effects w @ [RoomMessages rid tok]\<rparr>))"
  proof (intro allI impI)
    fix events
    assume h: "chunk = Some events \<and> events \<noteq> []
        \<and> (start = None \<or> start = Some None \<or> start = Some (Some []))"
    then have page: "room_messages env rid k tok = RoomMessagesReturns (Some events) start"
      using assms(2) by simp
    have walk: "backfill_walk env rid (Suc n) k (Some tok) event_count w =
        store_batch env rid events event_count
          (w\<lparr>effects := effects w @ [RoomMessages rid tok]\<rparr>)"
      using assms(1) page h by (intro backfill_walk_last_page) auto
    show "backfill_walk env rid (Suc n) k (Some tok) event_count w =
        store_batch env rid events event_count
          (w\<lparr>effects := effects w @ [RoomMessages rid tok]\<rparr>)
      \<and> (\<forall>ds. backfill_docs rid events = Inr ds \<longrightarrow>
            fst (backfill_walk env rid (Suc n) k (Some tok) event_count w) =
              Inr (if \<exists>d \<in> set ds. db_rejects env d then event_count
                   else event_count + length ds))
      \<and> (\<forall>e. backfill_docs rid events = Inl e \<longrightarrow>
            backfill_walk env rid (Suc n) k (Some tok) event_count w =
              (Inl e, w\<lparr>effects := effects w @ [RoomMessages rid tok]\<rparr>))"
      by (simp only: walk) (simp add: store_batch_built store_batch_not_built)
  qed
  have c3: "backfill_walk env rid n k None event_count w = (Inr event_count, w)"
    by (rule backfill_walk_no_token) simp
  have c4: "backfill_walk env rid n k (Some []) event_count w = (Inr event_count, w)"
    by (rule backfill_walk_no_token) simp
  have c5: "k = 0 \<and> chunk = Some [] \<and> map_of (rooms env) rid = Some (Some tok) \<longrightarrow>
      fst (backfill_room env rid limit w) = 0
      \<and> fst (backfill_room_try env rid limit w) \<noteq> Inl ClientError
      \<and> events_collection (snd (backfill_room env rid limit w)) = events_collection w
      \<and> (\<forall>d. Upsert d \<in> set (effects (snd (backfill_room env rid limit w))) \<longrightarrow>
             Upsert d \<in> set (effects w))"
  proof
    assume h: "k = 0 \<and> chunk = Some [] \<and> map_of (rooms env) rid = Some (Some tok)"
    then have page: "room_messages env rid 0 tok = RoomMessagesReturns (Some []) start"
      using assms(2) by simp
    from h have room: "map_of (rooms env) rid = Some (Some tok)" by simp
    have r: "backfill_room env rid limit w = (0, w)
        \<or> backfill_room env rid limit w = (0, w\<lparr>effects := effects w @ [RoomMessages rid tok]\<rparr>)"
      using room assms(1) page by (rule backfill_room_first_page_empty)
    have no_client_error: "fst (backfill_room_try env rid limit w) \<noteq> Inl ClientError"
    proof (cases "range_len limit (backfill_batch_size env)")
      case None
      then show ?thesis using room by (simp add: backfill_room_try_def)
    next
      case (Some m)
      show ?thesis
      proof (cases m)
        case 0
        then show ?thesis using room Some by (simp add: backfill_room_try_def)
      next
        case (Suc j)
        have "backfill_walk env rid (Suc j) 0 (Some tok) 0 w =
            (Inr 0, w\<lparr>effects := effects w @ [RoomMessages rid tok]\<rparr>)"
          using assms(1) page by (intro backfill_walk_empty_page) auto
        then show ?thesis using room Some Suc by (simp add: backfill_room_try_def)
      qed
    qed
    from r no_client_error show "fst (backfill_room env rid limit w) = 0
      \<and> fst (backfill_room_try env rid limit w) \<noteq> Inl ClientError
      \<and> events_collection (snd (backfill_room env rid limit w)) = events_collection w
      \<and> (\<forall>d. Upsert d \<in> set (effects (snd (backfill_room env rid limit w))) \<longrightarrow>
             Upsert d \<in> set (effects w))"
      by auto
  qed
  show ?thesis
    by (intro conjI) (rule c1 c2 c3 c4 c5)+
qed

theorem backfill_walk_ends_normally_witness:
  "backfill_walk example_env ''B'' (Suc 8) 1 (Some ''u1'') 2 example_world =
     (Inr 2, example_world\<lparr>effects := [RoomMessages ''B'' ''u1'']\<rparr>)
   \<and> fst (backfill_room (example_env\<lparr>room_messages := \<lambda>rid k tok. RoomMessagesReturns (Some []) None\<rparr>)
        ''B'' 1000 example_world) = 0
   \<and> events_collection (snd (backfill_room
        (example_env\<lparr>room_messages := \<lambda>rid k tok. RoomMessagesReturns (Some []) None\<rparr>)
        ''B'' 1000 example_world)) = []"
  using backfill_walk_ends_normally [of "''u1''" example_env "''B''" 1 "Some []" "Some None" 8 2
      example_world 1000]
    backfill_walk_ends_normally [of "''u0''"
      "example_env\<lparr>room_messages := \<lambda>rid k tok. RoomMessagesReturns (Some []) None\<rparr>"
      "''B''" 0 "Some []" None 8 2 example_world 1000]
  by (simp add: example_env_def example_world_def)

text \<open>
  C8. \<^verbatim>\<open>backfill_all_rooms\<close> returns a dictionary whose keys are exactly the joined
  rooms (the keys of \<^verbatim>\<open>client.rooms\<close>, which are distinct); the entry of each room is
  the count \<^verbatim>\<open>backfill_room\<close> returned for it, called in the world the rooms before it
  left; a room whose \<^verbatim>\<open>try\<close> block is left by an exception is reported with the
  count 0, and a page request that raises, the first of a room or a later one, leaves the
  walk by an exception; the rooms after it are walked and reported all the same.
\<close>

theorem backfill_all_rooms_reports_every_room:
  assumes "distinct (map fst (rooms env))"
  shows "dom (fst (backfill_all_rooms env w)) = fst ` set (rooms env)
       \<and> (\<forall>pre rid prev post. rooms env = pre @ (rid, prev) # post \<longrightarrow>
            fst (backfill_all_rooms env w) rid =
              Some (fst (backfill_room env rid 1000
                     (snd (backfill_rooms env (map fst pre) Map.empty w)))))
       \<and> (\<forall>rid limit w1 e. fst (backfill_room_try env rid limit w1) = Inl e \<longrightarrow>
            fst (backfill_room env rid limit w1) = 0)
       \<and> (\<forall>rid limit w1 tok n. map_of (rooms env) rid = Some (Some tok) \<and> tok \<noteq> []
              \<and> range_len limit (backfill_batch_size env) = Some (Suc n)
              \<and> room_messages env rid 0 tok = RoomMessagesRaises \<longrightarrow>
            fst (backfill_room_try env rid limit w1) = Inl ClientError
            \<and> fst (backfill_room env rid limit w1) = 0)
       \<and> (\<forall>rid k tok n event_count w1. tok \<noteq> []
              \<and> room_messages env rid k tok = RoomMessagesRaises \<longrightarrow>
            fst (backfill_walk env rid (Suc n) k (Some tok) event_count w1) = Inl ClientError)"
proof -
  have c1: "dom (fst (backfill_all_rooms env w)) = fst ` set (rooms env)"
    by (simp add: backfill_all_rooms_def backfill_rooms_dom)
  have c2: "\<forall>pre rid prev post. rooms env = pre @ (rid, prev) # post \<longrightarrow>
      fst (backfill_all_rooms env w) rid =
        Some (fst (backfill_room env rid 1000
               (snd (backfill_rooms env (map fst pre) Map.empty w))))"
  proof (intro allI impI)
    fix pre rid prev post
    assume split: "rooms env = pre @ (rid, prev) # post"
    with assms have "rid \<notin> set (map fst post)" by simp
    then have "fst (backfill_rooms env (map fst pre @ rid # map fst post) Map.empty w) rid =
        Some (fst (backfill_room env rid 1000 (snd (backfill_rooms env (map fst pre) Map.empty w))))"
      by (rule backfill_rooms_entry)
    then show "fst (backfill_all_rooms env w) rid =
        Some (fst (backfill_room env rid 1000
               (snd (backfill_rooms env (map fst pre) Map.empty w))))"
      by (simp add: backfill_all_rooms_def split)
  qed
  have c3: "\<forall>rid limit w1 e. fst (backfill_room_try env rid limit w1) = Inl e \<longrightarrow>
      fst (backfill_room env rid limit w1) = 0"
    using backfill_room_failure_is_zero by blast
  have c4: "\<forall>rid limit w1 tok n. map_of (rooms env) rid = Some (Some tok) \<and> tok \<noteq> []
        \<and> range_len limit (backfill_batch_size env) = Some (Suc n)
        \<and> room_messages env rid 0 tok = RoomMessagesRaises \<longrightarrow>
      fst (backfill_room_try env rid limit w1) = Inl ClientError
      \<and> fst (backfill_room env rid limit w1) = 0"
  proof (intro allI impI)
    fix rid limit w1 tok n
    assume h: "map_of (rooms env) rid = Some (Some tok) \<and> tok \<noteq> []
        \<and> range_len limit (backfill_batch_size env) = Some (Suc n)
        \<and> room_messages env rid 0 tok = RoomMessagesRaises"
    then have "backfill_walk env rid (Suc n) 0 (Some tok) 0 w1 =
        (Inl ClientError, w1\<lparr>effects := effects w1 @ [RoomMessages rid tok]\<rparr>)"
      by (intro backfill_walk_raises) auto
    with h have t: "fst (backfill_room_try env rid limit w1) = Inl ClientError"
      by (simp add: backfill_room_try_def)
    then have "fst (backfill_room env rid limit w1) = 0"
      by (rule backfill_room_failure_is_zero)
    with t show "fst (backfill_room_try env rid limit w1) = Inl ClientError
        \<and> fst (backfill_room env rid limit w1) = 0" by simp
  qed
  have c5: "\<forall>rid k tok n event_count w1. tok \<noteq> []
        \<and> room_messages env rid k tok = RoomMessagesRaises \<longrightarrow>
      fst (backfill_walk env rid (Suc n) k (Some tok) event_count w1) = Inl ClientError"
    by (simp add: backfill_walk_raises)
  show ?thesis
    by (intro conjI) (rule c1 c2 c3 c4 c5)+
qed

theorem backfill_all_rooms_reports_every_room_witness:
  "dom (fst (backfill_all_rooms example_env example_world)) = {''A'', ''B''}
   \<and> fst (backfill_all_rooms example_env example_world) ''A'' = Some 0
   \<and> fst (backfill_all_rooms example_env example_world) ''B'' = Some 2"
proof -
  have d: "distinct (map fst (rooms example_env))"
    by (simp add: example_env_def)
  have rooms: "rooms example_env = [] @ (''A'', Some ''t0'') # [(''B'', Some ''u0'')]"
    "rooms example_env = [(''A'', Some ''t0'')] @ (''B'', Some ''u0'') # []"
    by (simp_all add: example_env_def)
  note t = backfill_all_rooms_reports_every_room [OF d, of example_world]
  have turns: "range_len 1000 (backfill_batch_size example_env) = Some (Suc (Suc 8))"
    by (simp add: range_len_def example_env_def)
  have a: "fst (backfill_room example_env ''A'' 1000 w) = 0" for w
    using t [THEN conjunct2, THEN conjunct2, THEN conjunct2, THEN conjunct1, rule_format,
        of "''A''" "''t0''" 1000 "Suc 8" w] turns
    by (simp add: example_env_def)
  have b: "fst (backfill_room example_env ''B'' 1000 w) = 2" for w
  proof -
    have "backfill_walk example_env ''B'' (Suc (Suc 8)) 0 (Some ''u0'') 0 w =
        (Inr 2, snd (store_batch example_env ''B''
           [example_event (Some ''e1''), example_event (Some ''e2'')] 0
           (w\<lparr>effects := effects w @ [RoomMessages ''B'' ''u0'']\<rparr>))
          \<lparr>effects := effects (snd (store_batch example_env ''B''
           [example_event (Some ''e1''), example_event (Some ''e2'')] 0
           (w\<lparr>effects := effects w @ [RoomMessages ''B'' ''u0'']\<rparr>))) @
             [RoomMessages ''B'' ''u1'']\<rparr>)"
      by (simp add: example_env_def store_batch_def backfill_doc_def timestamp_of_def
          example_event_def del: Suc_numeral)
    then show ?thesis
      using turns
      by (simp add: backfill_room_def backfill_room_try_def example_env_def del: Suc_numeral)
  qed
  have "dom (fst (backfill_all_rooms example_env example_world)) = {''A'', ''B''}"
    using t [THEN conjunct1] by (simp add: example_env_def insert_commute)
  moreover have "fst (backfill_all_rooms example_env example_world) ''A'' = Some 0"
    using t [THEN conjunct2, THEN conjunct1, rule_format, OF rooms(1)] by (simp add: a)
  moreover have "fst (backfill_all_rooms example_env example_world) ''B'' = Some 2"
    using t [THEN conjunct2, THEN conjunct1, rule_format, OF rooms(2)] by (simp add: b)
  ultimately show ?thesis by simp
qed

end
